theory Spec2Isabelle
  imports Complex_Main
begin

section \<open>Values shared by the two modules\<close>

text \<open>
  The exceptions the modelled functions can raise.  A failing computation is a value
  \<open>Inl e\<close> of the sum type \<open>error + 'a\<close>; \<open>ebind\<close> sequences two computations and
  stops at the first failure, as a raised exception does.
\<close>

datatype error = IndexError | ZeroDivisionError | ValueError | UnboundLocalError

definition ebind :: "error + 'a \<Rightarrow> ('a \<Rightarrow> error + 'b) \<Rightarrow> error + 'b" where
  "ebind c f = (case c of Inl e \<Rightarrow> Inl e | Inr x \<Rightarrow> f x)"

text \<open>
  A float64 cell: a finite number, one of the two infinities, or NaN.  Finite numbers are
  real numbers, so rounding and overflow are not part of the model; the comparisons and
  the treatment of the infinities and of NaN, on which the control flow of the code
  rests, are those of NumPy.
\<close>

datatype fl = Flt real | PInf | NInf | NaN

fun isfinite :: "fl \<Rightarrow> bool" where
  "isfinite (Flt x) = True"
| "isfinite PInf = False"
| "isfinite NInf = False"
| "isfinite NaN = False"

text \<open>\<open>a < b\<close> on floats: false as soon as one side is NaN.\<close>

fun fl_less :: "fl \<Rightarrow> fl \<Rightarrow> bool" where
  "fl_less NaN b = False"
| "fl_less a NaN = False"
| "fl_less (Flt x) (Flt y) = (x < y)"
| "fl_less (Flt x) PInf = True"
| "fl_less (Flt x) NInf = False"
| "fl_less PInf b = False"
| "fl_less NInf NInf = False"
| "fl_less NInf b = True"

text \<open>\<open>a > b\<close> is \<open>b < a\<close>; \<open>a <= b\<close> is not the negation of \<open>b < a\<close> (NaN).\<close>

definition fl_greater :: "fl \<Rightarrow> fl \<Rightarrow> bool" where
  "fl_greater a b = fl_less b a"

definition fl_le :: "fl \<Rightarrow> fl \<Rightarrow> bool" where
  "fl_le a b = (a \<noteq> NaN \<and> b \<noteq> NaN \<and> \<not> fl_less b a)"

text \<open>
  Subscripting a one-dimensional array with a Python integer: a negative index counts
  from the end, and an index outside \<open>[-len, len)\<close> raises.
\<close>

definition py_get :: "'a list \<Rightarrow> int \<Rightarrow> error + 'a" where
  "py_get xs i =
     (if 0 \<le> i \<and> i < int (length xs) then Inr (xs ! nat i)
      else if - int (length xs) \<le> i \<and> i < 0 then Inr (xs ! nat (int (length xs) + i))
      else Inl IndexError)"

text \<open>The slice \<open>xs[:k]\<close>: a negative bound counts from the end, and bounds are clipped.\<close>

definition py_slice_to :: "'a list \<Rightarrow> int \<Rightarrow> 'a list" where
  "py_slice_to xs k =
     (let n = int (length xs); j = (if k < 0 then max 0 (n + k) else k)
      in take (nat j) xs)"

text \<open>\<open>np.count_nonzero\<close> of a Boolean array.\<close>

definition count_nonzero :: "bool list \<Rightarrow> int" where
  "count_nonzero bs = int (length (filter (\<lambda>b. b) bs))"

section \<open>mpdist.py\<close>

text \<open>
  \<open>_select_P_ABBA_value(P_ABBA, k, custom_func)\<close>.  A custom selector, when given,
  decides alone.
\<close>

definition select_P_ABBA_value :: "fl list \<Rightarrow> int \<Rightarrow> (fl list \<Rightarrow> fl) option \<Rightarrow> error + fl" where
  "select_P_ABBA_value P_ABBA k custom_func =
     (case custom_func of
        Some f \<Rightarrow> Inr (f P_ABBA)
      | None \<Rightarrow>
          ebind (py_get P_ABBA k) (\<lambda>MPdist.
            if \<not> isfinite MPdist then
              (let k' = max 0 (count_nonzero (map isfinite (py_slice_to P_ABBA k)) - 1)
               in py_get P_ABBA k')
            else Inr MPdist))"

text \<open>
  \<open>P_ABBA.sort()\<close>: ascending, NaN last.  \<open>sort_rank\<close> is the position of a cell in
  that order.
\<close>

fun fl_sort_le :: "fl \<Rightarrow> fl \<Rightarrow> bool" where
  "fl_sort_le a NaN = True"
| "fl_sort_le NaN b = False"
| "fl_sort_le a b = (\<not> fl_less b a)"

fun fl_insort :: "fl \<Rightarrow> fl list \<Rightarrow> fl list" where
  "fl_insort a [] = [a]"
| "fl_insort a (b # bs) = (if fl_sort_le a b then a # b # bs else b # fl_insort a bs)"

definition fl_sort :: "fl list \<Rightarrow> fl list" where
  "fl_sort xs = foldr fl_insort xs []"

text \<open>
  \<open>_compute_P_ABBA\<close> fills the first \<open>n_A - m + 1\<close> cells of \<open>P_ABBA\<close> with the first
  column of the AB-join and the remaining cells with that of the BA-join.  The join
  \<open>mp_func\<close> (\<open>stump\<close> or \<open>stumped\<close>) is not part of these sources and is a parameter: it
  maps \<open>T_A\<close>, \<open>m\<close>, \<open>T_B\<close> to the first column of its result.  The three branches of the
  source differ only in how the join is dispatched.  Assigning to a slice raises when the
  lengths differ.
\<close>

definition compute_P_ABBA ::
  "(fl list \<Rightarrow> int \<Rightarrow> fl list \<Rightarrow> fl list) \<Rightarrow> fl list \<Rightarrow> fl list \<Rightarrow> int \<Rightarrow> fl list \<Rightarrow> error + fl list" where
  "compute_P_ABBA mp_func T_A T_B m P_ABBA =
     (let n_A = int (length T_A);
          AB = mp_func T_A m T_B;
          BA = mp_func T_B m T_A;
          head = py_slice_to P_ABBA (n_A - m + 1);
          rest = drop (length head) P_ABBA
      in if length AB \<noteq> length head \<or> length BA \<noteq> length rest then Inl ValueError
         else Inr (AB @ BA))"

text \<open>
  \<open>_mpdist\<close> (called \<open>mpdist_inner\<close> here, the name \<open>mpdist\<close> being that of the public
  wrapper).  \<open>k\<close> is \<open>None\<close> or an integer; \<open>np.empty\<close> raises on a negative length and
  its cells are arbitrary until they are assigned (NaN here).
\<close>

definition mpdist_inner ::
  "(fl list \<Rightarrow> int \<Rightarrow> fl list \<Rightarrow> fl list) \<Rightarrow> fl list \<Rightarrow> fl list \<Rightarrow> int \<Rightarrow> real \<Rightarrow> int option
     \<Rightarrow> (fl list \<Rightarrow> fl) option \<Rightarrow> error + fl" where
  "mpdist_inner mp_func T_A T_B m percentage k custom_func =
     (let n_A = int (length T_A);
          n_B = int (length T_B)
      in if n_A - m + 1 + n_B - m + 1 < 0 then Inl ValueError
         else
           ebind (compute_P_ABBA mp_func T_A T_B m
                    (replicate (nat (n_A - m + 1 + n_B - m + 1)) NaN)) (\<lambda>P_ABBA.
             let P_ABBA = fl_sort P_ABBA;
                 k = (case k of
                        Some k \<Rightarrow> k
                      | None \<Rightarrow>
                          (let percentage = min percentage 1;
                               percentage = max percentage 0
                           in min \<lceil>percentage * real_of_int (n_A + n_B)\<rceil>
                                  (n_A - m + 1 + n_B - m + 1 - 1)))
             in select_P_ABBA_value P_ABBA k custom_func))"

text \<open>\<open>mpdist(T_A, T_B, m, percentage, k)\<close>: \<open>_mpdist\<close> with the join \<open>stump\<close>.\<close>

definition mpdist ::
  "(fl list \<Rightarrow> int \<Rightarrow> fl list \<Rightarrow> fl list) \<Rightarrow> fl list \<Rightarrow> fl list \<Rightarrow> int \<Rightarrow> real \<Rightarrow> int option
     \<Rightarrow> error + fl" where
  "mpdist stump T_A T_B m percentage k = mpdist_inner stump T_A T_B m percentage k None"


section \<open>scrimp.py: shared operations\<close>

text \<open>
  Float arithmetic on \<open>fl\<close>, with the IEEE rules for the infinities and NaN.
\<close>

fun fl_add :: "fl \<Rightarrow> fl \<Rightarrow> fl" where
  "fl_add NaN b = NaN"
| "fl_add a NaN = NaN"
| "fl_add (Flt x) (Flt y) = Flt (x + y)"
| "fl_add PInf NInf = NaN"
| "fl_add NInf PInf = NaN"
| "fl_add PInf b = PInf"
| "fl_add a PInf = PInf"
| "fl_add NInf b = NInf"
| "fl_add a NInf = NInf"

fun fl_neg :: "fl \<Rightarrow> fl" where
  "fl_neg (Flt x) = Flt (- x)"
| "fl_neg PInf = NInf"
| "fl_neg NInf = PInf"
| "fl_neg NaN = NaN"

definition fl_sub :: "fl \<Rightarrow> fl \<Rightarrow> fl" where
  "fl_sub a b = fl_add a (fl_neg b)"

text \<open>The sign of a cell that is not NaN: \<open>-1\<close>, \<open>0\<close> or \<open>1\<close>.\<close>

fun fl_sign :: "fl \<Rightarrow> int" where
  "fl_sign (Flt x) = (if x < 0 then - 1 else if x = 0 then 0 else 1)"
| "fl_sign PInf = 1"
| "fl_sign NInf = - 1"
| "fl_sign NaN = 0"

fun fl_mul :: "fl \<Rightarrow> fl \<Rightarrow> fl" where
  "fl_mul NaN b = NaN"
| "fl_mul a NaN = NaN"
| "fl_mul (Flt x) (Flt y) = Flt (x * y)"
| "fl_mul a b =
     (if fl_sign a * fl_sign b = 0 then NaN
      else if fl_sign a * fl_sign b > 0 then PInf else NInf)"

text \<open>
  Division.  The sign of a zero is not modelled: a division by zero gives the infinity of
  the sign of the numerator (NaN for \<open>0 / 0\<close>).
\<close>

fun fl_divide :: "fl \<Rightarrow> fl \<Rightarrow> fl" where
  "fl_divide NaN b = NaN"
| "fl_divide a NaN = NaN"
| "fl_divide (Flt x) (Flt y) =
     (if y \<noteq> 0 then Flt (x / y) else if x = 0 then NaN else if x > 0 then PInf else NInf)"
| "fl_divide (Flt x) b = Flt 0"
| "fl_divide a (Flt y) = (if fl_sign a * (if y < 0 then - 1 else 1) > 0 then PInf else NInf)"
| "fl_divide a b = NaN"

fun fl_abs :: "fl \<Rightarrow> fl" where
  "fl_abs (Flt x) = Flt \<bar>x\<bar>"
| "fl_abs PInf = PInf"
| "fl_abs NInf = PInf"
| "fl_abs NaN = NaN"

fun fl_sqrt :: "fl \<Rightarrow> fl" where
  "fl_sqrt (Flt x) = (if x < 0 then NaN else Flt (sqrt x))"
| "fl_sqrt PInf = PInf"
| "fl_sqrt NInf = NaN"
| "fl_sqrt NaN = NaN"

definition fl_square :: "fl \<Rightarrow> fl" where
  "fl_square a = fl_mul a a"

text \<open>\<open>np.dot\<close> of two one-dimensional arrays; it raises when the lengths differ.\<close>

definition dot :: "fl list \<Rightarrow> fl list \<Rightarrow> error + fl" where
  "dot xs ys =
     (if length xs \<noteq> length ys then Inl ValueError
      else Inr (foldl fl_add (Flt 0) (map2 fl_mul xs ys)))"

text \<open>\<open>range(a, b)\<close>.\<close>

definition range_py :: "int \<Rightarrow> int \<Rightarrow> int list" where
  "range_py a b = map (\<lambda>i. a + int i) [0..<nat (b - a)]"

text \<open>A \<open>for\<close> loop over a list of values, with the state threaded through the body.\<close>

fun efold :: "('a \<Rightarrow> 's \<Rightarrow> error + 's) \<Rightarrow> 'a list \<Rightarrow> 's \<Rightarrow> error + 's" where
  "efold f [] s = Inr s"
| "efold f (x # xs) s = ebind (f x s) (efold f xs)"

text \<open>
  Subscripts in the functions that Numba compiles (\<open>_get_max_order_idx\<close>,
  \<open>_get_orders_ranges\<close>, \<open>_compute_diagonal\<close>, \<open>_scrimp\<close>).  Compiled code does not check
  bounds, so the model is strict: \<open>getitem\<close>, \<open>setitem\<close> and \<open>getslice\<close> fail on every
  index outside \<open>[0, len)\<close>, negative ones included.  A run of the model that returns \<open>Inr\<close>
  is therefore a run in which every access was in bounds.
\<close>

definition getitem :: "'a list \<Rightarrow> int \<Rightarrow> error + 'a" where
  "getitem xs i = (if 0 \<le> i \<and> i < int (length xs) then Inr (xs ! nat i) else Inl IndexError)"

definition setitem :: "'a list \<Rightarrow> int \<Rightarrow> 'a \<Rightarrow> error + 'a list" where
  "setitem xs i v = (if 0 \<le> i \<and> i < int (length xs) then Inr (xs[nat i := v]) else Inl IndexError)"

definition getslice :: "'a list \<Rightarrow> int \<Rightarrow> int \<Rightarrow> error + 'a list" where
  "getslice xs a b =
     (if 0 \<le> a \<and> a \<le> b \<and> b \<le> int (length xs)
      then Inr (take (nat (b - a)) (drop (nat a) xs)) else Inl IndexError)"

text \<open>Cells of a two-dimensional array, stored as the list of its rows.\<close>

definition getitem2 :: "'a list list \<Rightarrow> int \<Rightarrow> int \<Rightarrow> error + 'a" where
  "getitem2 xss t i = ebind (getitem xss t) (\<lambda>row. getitem row i)"

definition setitem2 :: "'a list list \<Rightarrow> int \<Rightarrow> int \<Rightarrow> 'a \<Rightarrow> error + 'a list list" where
  "setitem2 xss t i v =
     ebind (getitem xss t) (\<lambda>row. ebind (setitem row i v) (\<lambda>row'. setitem xss t row'))"

section \<open>scrimp.py: splitting the diagonals\<close>

text \<open>
  The second loop of \<open>_get_max_order_idx\<close>, over the indices that remain, with its
  \<open>break\<close>.  The loop variable \<open>order_idx\<close> keeps the last value it was given, by this
  loop or by the one before it (\<open>None\<close>: never assigned).
\<close>

fun max_order_walk ::
  "int \<Rightarrow> int \<Rightarrow> int list \<Rightarrow> real \<Rightarrow> int \<Rightarrow> int list \<Rightarrow> int option \<Rightarrow> int
     \<Rightarrow> error + (int option \<times> int)" where
  "max_order_walk m n orders percentage max_n_dist [] order_idx n_dist_computed =
     Inr (order_idx, n_dist_computed)"
| "max_order_walk m n orders percentage max_n_dist (j # js) order_idx n_dist_computed =
     ebind (getitem orders j) (\<lambda>k.
       let n_dist_computed = n_dist_computed + (n - m + 2 - k)
       in if max_n_dist = 0 then Inl ZeroDivisionError
          else if real_of_int n_dist_computed / real_of_int max_n_dist > percentage
          then Inr (Some j, n_dist_computed)
          else max_order_walk m n orders percentage max_n_dist js (Some j) n_dist_computed)"

text \<open>
  \<open>_get_max_order_idx(m, n, orders, start, percentage)\<close>.  The first loop adds up the
  lengths of all the diagonals of \<open>orders\<close> and leaves \<open>order_idx\<close> at the last index.
\<close>

definition get_max_order_idx ::
  "int \<Rightarrow> int \<Rightarrow> int list \<Rightarrow> int \<Rightarrow> real \<Rightarrow> error + (int \<times> int)" where
  "get_max_order_idx m n orders start percentage =
     (let max_n_dist = foldl (\<lambda>max_n_dist k. max_n_dist + (n - m + 2 - k)) 0 orders;
          order_idx = (if orders = [] then None else Some (int (length orders) - 1))
      in ebind (max_order_walk m n orders percentage max_n_dist
                  (range_py start (int (length orders))) order_idx 0)
           (\<lambda>(order_idx, n_dist_computed).
              case order_idx of
                None \<Rightarrow> Inl UnboundLocalError
              | Some j \<Rightarrow> Inr (j + 1, n_dist_computed)))"

text \<open>
  The body of the loop of \<open>_get_orders_ranges\<close>.  The state is \<open>orders_ranges\<close> (one
  pair of start and exclusive stop per row), \<open>ranges_idx\<close>, \<open>range_start_idx\<close> and
  \<open>n_dist_computed\<close>.
\<close>

definition orders_ranges_step ::
  "int \<Rightarrow> int \<Rightarrow> int list \<Rightarrow> int \<Rightarrow> real \<Rightarrow> int
     \<Rightarrow> (int \<times> int) list \<times> int \<times> int \<times> int
     \<Rightarrow> error + ((int \<times> int) list \<times> int \<times> int \<times> int)" where
  "orders_ranges_step m n orders max_order_idx max_n_dist_per_range order_idx st =
     (case st of (orders_ranges, ranges_idx, range_start_idx, n_dist_computed) \<Rightarrow>
        ebind (getitem orders order_idx) (\<lambda>k.
          let n_dist_computed = n_dist_computed + (n - m + 2 - k)
          in if real_of_int n_dist_computed > max_n_dist_per_range then
               ebind (setitem orders_ranges ranges_idx
                        (range_start_idx, min (order_idx + 1) max_order_idx))
                 (\<lambda>orders_ranges. Inr (orders_ranges, ranges_idx + 1, order_idx + 1, 0))
             else Inr (orders_ranges, ranges_idx, range_start_idx, n_dist_computed)))"

text \<open>\<open>_get_orders_ranges(n_split, m, n, orders, start, percentage)\<close>.\<close>

definition get_orders_ranges ::
  "int \<Rightarrow> int \<Rightarrow> int \<Rightarrow> int list \<Rightarrow> int \<Rightarrow> real \<Rightarrow> error + (int \<times> int) list" where
  "get_orders_ranges n_split m n orders start percentage =
     ebind (get_max_order_idx m n orders start percentage)
       (\<lambda>(max_order_idx, n_dist_computed).
          if n_split < 0 then Inl ValueError
          else if n_split = 0 then Inl ZeroDivisionError
          else
            let orders_ranges = replicate (nat n_split) (0, 0);
                max_n_dist_per_range = real_of_int n_dist_computed / real_of_int n_split
            in ebind (efold (orders_ranges_step m n orders max_order_idx max_n_dist_per_range)
                        (range_py start max_order_idx) (orders_ranges, 0, start, 0))
                 (\<lambda>(orders_ranges, ranges_idx, range_start_idx, n_dist_computed).
                    setitem orders_ranges ranges_idx (range_start_idx, max_order_idx)))"

section \<open>scrimp.py: the collaborators\<close>

text \<open>
  What \<open>scrimp.py\<close> takes from outside: three functions of \<open>core.py\<close>, which is not
  among these sources, the thread count of Numba's configuration, and the two draws of
  \<open>np.random.permutation\<close> (the sampled rows of PreSCRIMP and the diagonals of SCRIMP).
  They are parameters of the model, collected in one record.  \<open>check_window_size\<close> tells
  whether the window size passes the check (\<open>core.check_window_size\<close> raises
  otherwise); \<open>core.check_dtype\<close> cannot fail on an array of \<open>fl\<close> cells and is left
  out.
\<close>

record env =
  calculate_squared_distance :: "int \<Rightarrow> fl \<Rightarrow> fl \<Rightarrow> fl \<Rightarrow> fl \<Rightarrow> fl \<Rightarrow> fl"
  mass :: "fl list \<Rightarrow> fl list \<Rightarrow> fl list \<Rightarrow> fl list \<Rightarrow> fl list"
  compute_mean_std :: "fl list \<Rightarrow> int \<Rightarrow> fl list \<times> fl list"
  check_window_size :: "int \<Rightarrow> bool"
  NUMBA_NUM_THREADS :: int
  permutation_rows :: "int list \<Rightarrow> int list"
  permutation_orders :: "int list \<Rightarrow> int list"

section \<open>scrimp.py: walking the diagonals\<close>

text \<open>
  The update that \<open>_compute_diagonal\<close> makes twice for each distance:
  \<open>if D_squared < P[thread_idx, a]: P[thread_idx, a] = D_squared; I[thread_idx, a] = b\<close>.
\<close>

definition improve ::
  "int \<Rightarrow> int \<Rightarrow> fl \<Rightarrow> int \<Rightarrow> fl list list \<times> int list list
     \<Rightarrow> error + (fl list list \<times> int list list)" where
  "improve thread_idx a D_squared b PI =
     (case PI of (P, I) \<Rightarrow>
        ebind (getitem2 P thread_idx a) (\<lambda>p.
          if fl_less D_squared p then
            ebind (setitem2 P thread_idx a D_squared) (\<lambda>P.
              ebind (setitem2 I thread_idx a b) (\<lambda>I. Inr (P, I)))
          else Inr (P, I)))"

text \<open>
  The body of the inner loop of \<open>_compute_diagonal\<close>, for row \<open>i\<close> of diagonal \<open>k\<close>.
  The state is \<open>QT\<close> and the two tables.  \<open>and\<close> evaluates its right operand, which
  reads \<open>P\<close>, only when the exclusion test on the left holds.
\<close>

definition diagonal_step ::
  "env \<Rightarrow> fl list \<Rightarrow> int \<Rightarrow> fl list \<Rightarrow> fl list \<Rightarrow> int \<Rightarrow> int \<Rightarrow> int \<Rightarrow> int
     \<Rightarrow> fl \<times> fl list list \<times> int list list
     \<Rightarrow> error + (fl \<times> fl list list \<times> int list list)" where
  "diagonal_step e T m \<mu> \<sigma> excl_zone thread_idx k i st =
     (case st of (QT, P, I) \<Rightarrow>
        ebind
          (if i = 0 then
             ebind (getslice T i (i + m)) (\<lambda>a.
               ebind (getslice T (i + k - 1) (i + k - 1 + m)) (\<lambda>b. dot a b))
           else
             ebind (getitem T (i - 1)) (\<lambda>t1.
               ebind (getitem T (i + k - 2)) (\<lambda>t2.
                 ebind (getitem T (i + m - 1)) (\<lambda>t3.
                   ebind (getitem T (i + k + m - 2)) (\<lambda>t4.
                     Inr (fl_add (fl_sub QT (fl_mul t1 t2)) (fl_mul t3 t4)))))))
          (\<lambda>QT.
             ebind (getitem \<mu> i) (\<lambda>\<mu>_i.
               ebind (getitem \<sigma> i) (\<lambda>\<sigma>_i.
                 ebind (getitem \<mu> (i + k - 1)) (\<lambda>\<mu>_j.
                   ebind (getitem \<sigma> (i + k - 1)) (\<lambda>\<sigma>_j.
                     let D_squared = calculate_squared_distance e m QT \<mu>_i \<sigma>_i \<mu>_j \<sigma>_j
                     in ebind
                          (if i < i + k - 1 - excl_zone
                           then improve thread_idx i D_squared (i + k - 1) (P, I)
                           else Inr (P, I))
                          (\<lambda>PI.
                             ebind
                               (if i < i + k - 1 - excl_zone
                                then improve thread_idx (i + k - 1) D_squared i PI
                                else Inr PI)
                               (\<lambda>PI. Inr (QT, fst PI, snd PI)))))))))"

text \<open>
  \<open>_compute_diagonal\<close>.  The tables are updated in place; the model returns them.
  \<open>QT\<close> has no value before the first row of the first diagonal, which assigns it; the
  NaN it starts with here is never read.
\<close>

definition compute_diagonal ::
  "env \<Rightarrow> fl list \<Rightarrow> int \<Rightarrow> fl list \<Rightarrow> fl list \<Rightarrow> int list \<Rightarrow> int \<Rightarrow> int \<Rightarrow> int \<Rightarrow> int
     \<Rightarrow> fl list list \<Rightarrow> int list list \<Rightarrow> error + (fl list list \<times> int list list)" where
  "compute_diagonal e T m \<mu> \<sigma> orders orders_start_idx orders_stop_idx excl_zone thread_idx P I =
     (let n = int (length T)
      in ebind
           (efold
              (\<lambda>order_idx st.
                 ebind (getitem orders order_idx) (\<lambda>k.
                   efold (diagonal_step e T m \<mu> \<sigma> excl_zone thread_idx k)
                     (range_py 0 (n - m + 2 - k)) st))
              (range_py orders_start_idx orders_stop_idx) (NaN, P, I))
           (\<lambda>st. Inr (fst (snd st), snd (snd st))))"

text \<open>
  The reduction of \<open>_scrimp\<close> at cell \<open>i\<close> of the table of thread \<open>thread_idx\<close>.
\<close>

definition reduce_step ::
  "int \<Rightarrow> int \<Rightarrow> fl list list \<times> int list list \<Rightarrow> error + (fl list list \<times> int list list)" where
  "reduce_step thread_idx i PI =
     (case PI of (P, I) \<Rightarrow>
        ebind (getitem2 P 0 i) (\<lambda>p0.
          ebind (getitem2 P thread_idx i) (\<lambda>pt.
            if fl_greater p0 pt then
              ebind (setitem2 P 0 i pt) (\<lambda>P.
                ebind (getitem2 I thread_idx i) (\<lambda>it.
                  ebind (setitem2 I 0 i it) (\<lambda>I. Inr (P, I))))
            else Inr (P, I))))"

text \<open>
  \<open>_scrimp\<close> (called \<open>scrimp_inner\<close> here, the name \<open>scrimp\<close> being that of the
  generator).  Each iteration of the first \<open>prange\<close> loop reads the shared inputs and
  reads and writes row \<open>thread_idx\<close> of the tables only, and each iteration of the
  second one cell \<open>i\<close> only, so running the iterations in order gives the result of
  running them in parallel.  \<open>percentage\<close> is not used by the body.
\<close>

definition scrimp_inner ::
  "env \<Rightarrow> fl list \<Rightarrow> int \<Rightarrow> fl list \<Rightarrow> fl list \<Rightarrow> int list \<Rightarrow> (int \<times> int) list \<Rightarrow> int \<Rightarrow> real
     \<Rightarrow> error + (fl list \<times> int list)" where
  "scrimp_inner e T m \<mu> \<sigma> orders orders_ranges excl_zone percentage =
     (let n = int (length T);
          l = n - m + 1;
          n_threads = NUMBA_NUM_THREADS e
      in if n_threads < 0 \<or> l < 0 then Inl ValueError
         else
           let P = replicate (nat n_threads) (replicate (nat l) PInf);
               I = replicate (nat n_threads) (replicate (nat l) (- 1))
           in ebind
                (efold
                   (\<lambda>thread_idx PI.
                      ebind (getitem orders_ranges thread_idx) (\<lambda>r.
                        compute_diagonal e T m \<mu> \<sigma> orders (fst r) (snd r) excl_zone
                          thread_idx (fst PI) (snd PI)))
                   (range_py 0 n_threads) (P, I))
                (\<lambda>PI.
                   ebind
                     (efold (\<lambda>thread_idx. efold (reduce_step thread_idx) (range_py 0 l))
                        (range_py 1 n_threads) PI)
                     (\<lambda>PI.
                        ebind (getitem (fst PI) 0) (\<lambda>P0.
                          ebind (getitem (snd PI) 0) (\<lambda>I0. Inr (map fl_sqrt P0, I0))))))"

section \<open>scrimp.py: PreSCRIMP\<close>

text \<open>
  \<open>_prescrimp\<close> is plain NumPy code, so its subscripts are Python's: \<open>py_get\<close> and
  \<open>py_set\<close> wrap a negative index, and slices clip their bounds.
\<close>

definition py_set :: "'a list \<Rightarrow> int \<Rightarrow> 'a \<Rightarrow> error + 'a list" where
  "py_set xs i v =
     (if 0 \<le> i \<and> i < int (length xs) then Inr (xs[nat i := v])
      else if - int (length xs) \<le> i \<and> i < 0 then Inr (xs[nat (int (length xs) + i) := v])
      else Inl IndexError)"

definition py_bound :: "int \<Rightarrow> int \<Rightarrow> int" where
  "py_bound len a = (if a < 0 then max 0 (len + a) else min a len)"

text \<open>\<open>xs[a:b]\<close>, and \<open>xs[a:b] = v\<close> for a scalar \<open>v\<close>.\<close>

definition py_slice :: "'a list \<Rightarrow> int \<Rightarrow> int \<Rightarrow> 'a list" where
  "py_slice xs a b =
     (let a' = py_bound (int (length xs)) a; b' = py_bound (int (length xs)) b
      in take (nat (b' - a')) (drop (nat a') xs))"

definition py_fill :: "'a list \<Rightarrow> int \<Rightarrow> int \<Rightarrow> 'a \<Rightarrow> 'a list" where
  "py_fill xs a b v =
     (let a' = py_bound (int (length xs)) a; b' = py_bound (int (length xs)) b
      in map (\<lambda>(j, x). if a' \<le> int j \<and> int j < b' then v else x) (zip [0..<length xs] xs))"

text \<open>\<open>range(a, b, s)\<close>; a zero step raises.\<close>

definition range3 :: "int \<Rightarrow> int \<Rightarrow> int \<Rightarrow> error + int list" where
  "range3 a b s =
     (if s = 0 then Inl ValueError
      else if s > 0 then Inr (map (\<lambda>j. a + int j * s) [0..<nat ((b - a + s - 1) div s)])
      else Inr (map (\<lambda>j. a + int j * s) [0..<nat ((a - b - s - 1) div (- s))]))"

text \<open>
  \<open>np.argmin\<close>: the first index of the least cell, a NaN counting as less than every
  number; it raises on an empty array.
\<close>

definition argmin_step :: "nat \<times> fl \<Rightarrow> nat \<times> fl \<Rightarrow> nat \<times> fl" where
  "argmin_step best c =
     (if snd best \<noteq> NaN \<and> (snd c = NaN \<or> fl_less (snd c) (snd best)) then c else best)"

definition argmin :: "fl list \<Rightarrow> error + int" where
  "argmin xs =
     (if xs = [] then Inl ValueError
      else Inr (int (fst (foldl argmin_step (0, hd xs) (zip [0..<length xs] xs)))))"

text \<open>
  The update that \<open>_prescrimp\<close> makes for a distance:
  \<open>if D_squared < P[a]: P[a] = D_squared; I[a] = b\<close>.
\<close>

definition improve1 ::
  "int \<Rightarrow> fl \<Rightarrow> int \<Rightarrow> fl list \<times> int list \<Rightarrow> error + (fl list \<times> int list)" where
  "improve1 a D_squared b PI =
     (case PI of (P, I) \<Rightarrow>
        ebind (py_get P a) (\<lambda>p.
          if fl_less D_squared p then
            ebind (py_set P a D_squared) (\<lambda>P. ebind (py_set I a b) (\<lambda>I. Inr (P, I)))
          else Inr (P, I)))"

text \<open>
  The first half of the body of the loop of \<open>_prescrimp\<close>, for the sampled row \<open>i\<close>: the
  distances of row \<open>i\<close> to every subsequence, the exclusion zone masked, the best match of
  row \<open>i\<close>, and the update of every column.  It also returns the masked distances.
\<close>

definition prescrimp_scan ::
  "env \<Rightarrow> fl list \<Rightarrow> int \<Rightarrow> fl list \<Rightarrow> fl list \<Rightarrow> int \<Rightarrow> int \<Rightarrow> int \<Rightarrow> fl list \<times> int list
     \<Rightarrow> error + (fl list \<times> int list)" where
  "prescrimp_scan e T m \<mu> \<sigma> l excl_zone i PI =
     (case PI of (P, I) \<Rightarrow>
        let Q = py_slice T i (i + m);
            D_squared = map fl_square (mass e Q T \<mu> \<sigma>);
            zone_start = max 0 (i - excl_zone);
            zone_stop = min l (i + excl_zone);
            D_squared = py_fill D_squared zone_start (zone_stop + 1) PInf
        in ebind (argmin D_squared) (\<lambda>best.
             ebind (py_set I i best) (\<lambda>I.
               ebind (py_get I i) (\<lambda>I_i.
                 ebind (py_get D_squared I_i) (\<lambda>d.
                   ebind (py_set P i d) (\<lambda>P.
                     ebind (py_get P i) (\<lambda>P_i.
                       ebind (if P_i = PInf then py_set I i (- 1) else Inr I) (\<lambda>I.
                         efold (\<lambda>j PI. ebind (py_get D_squared j) (\<lambda>d. improve1 j d i PI))
                           (range_py 0 l) (P, I)))))))))"

text \<open>One step forward and one step backward from the pair \<open>(i, j)\<close>.\<close>

definition forward_step ::
  "env \<Rightarrow> fl list \<Rightarrow> int \<Rightarrow> fl list \<Rightarrow> fl list \<Rightarrow> int \<Rightarrow> int \<Rightarrow> int
     \<Rightarrow> fl \<times> fl list \<times> int list \<Rightarrow> error + (fl \<times> fl list \<times> int list)" where
  "forward_step e T m \<mu> \<sigma> i j k st =
     (case st of (QT, P, I) \<Rightarrow>
        ebind (py_get T (i + k - 1)) (\<lambda>t1.
          ebind (py_get T (j + k - 1)) (\<lambda>t2.
            ebind (py_get T (i + k + m - 1)) (\<lambda>t3.
              ebind (py_get T (j + k + m - 1)) (\<lambda>t4.
                let QT = fl_add (fl_sub QT (fl_mul t1 t2)) (fl_mul t3 t4)
                in ebind (py_get \<mu> (i + k)) (\<lambda>\<mu>_i.
                     ebind (py_get \<sigma> (i + k)) (\<lambda>\<sigma>_i.
                       ebind (py_get \<mu> (j + k)) (\<lambda>\<mu>_j.
                         ebind (py_get \<sigma> (j + k)) (\<lambda>\<sigma>_j.
                           let D_squared =
                                 calculate_squared_distance e m QT \<mu>_i \<sigma>_i \<mu>_j \<sigma>_j
                           in ebind (improve1 (i + k) D_squared (j + k) (P, I)) (\<lambda>PI.
                                ebind (improve1 (j + k) D_squared (i + k) PI) (\<lambda>PI.
                                  Inr (QT, fst PI, snd PI))))))))))))"

definition backward_step ::
  "env \<Rightarrow> fl list \<Rightarrow> int \<Rightarrow> fl list \<Rightarrow> fl list \<Rightarrow> int \<Rightarrow> int \<Rightarrow> int
     \<Rightarrow> fl \<times> fl list \<times> int list \<Rightarrow> error + (fl \<times> fl list \<times> int list)" where
  "backward_step e T m \<mu> \<sigma> i j k st =
     (case st of (QT, P, I) \<Rightarrow>
        ebind (py_get T (i - k + m)) (\<lambda>t1.
          ebind (py_get T (j - k + m)) (\<lambda>t2.
            ebind (py_get T (i - k)) (\<lambda>t3.
              ebind (py_get T (j - k)) (\<lambda>t4.
                let QT = fl_add (fl_sub QT (fl_mul t1 t2)) (fl_mul t3 t4)
                in ebind (py_get \<mu> (i - k)) (\<lambda>\<mu>_i.
                     ebind (py_get \<sigma> (i - k)) (\<lambda>\<sigma>_i.
                       ebind (py_get \<mu> (j - k)) (\<lambda>\<mu>_j.
                         ebind (py_get \<sigma> (j - k)) (\<lambda>\<sigma>_j.
                           let D_squared =
                                 calculate_squared_distance e m QT \<mu>_i \<sigma>_i \<mu>_j \<sigma>_j
                           in ebind (improve1 (i - k) D_squared (j - k) (P, I)) (\<lambda>PI.
                                ebind (improve1 (j - k) D_squared (i - k) PI) (\<lambda>PI.
                                  Inr (QT, fst PI, snd PI))))))))))))"

text \<open>
  The dot product of the pair \<open>(i, j)\<close>, rebuilt from the squared distance \<open>P[i]\<close>:
  \<open>(m - P[i] / 2.0) * (\<sigma>[i] * \<sigma>[j]) + (m * \<mu>[i] * \<mu>[j])\<close>.
\<close>

definition seed_QT :: "int \<Rightarrow> fl \<Rightarrow> fl \<Rightarrow> fl \<Rightarrow> fl \<Rightarrow> fl \<Rightarrow> fl" where
  "seed_QT m P_i \<sigma>_i \<sigma>_j \<mu>_i \<mu>_j =
     fl_add (fl_mul (fl_sub (Flt (real_of_int m)) (fl_divide P_i (Flt 2))) (fl_mul \<sigma>_i \<sigma>_j))
            (fl_mul (fl_mul (Flt (real_of_int m)) \<mu>_i) \<mu>_j)"

text \<open>
  The second half of the body: \<open>j = I[i]\<close>, the seed, the steps forward and, from the
  seed again, the steps backward.
\<close>

definition prescrimp_extend ::
  "env \<Rightarrow> fl list \<Rightarrow> int \<Rightarrow> fl list \<Rightarrow> fl list \<Rightarrow> int \<Rightarrow> int \<Rightarrow> int \<Rightarrow> fl list \<times> int list
     \<Rightarrow> error + (fl list \<times> int list)" where
  "prescrimp_extend e T m \<mu> \<sigma> s l i PI =
     (case PI of (P, I) \<Rightarrow>
        ebind (py_get I i) (\<lambda>j.
          ebind (py_get P i) (\<lambda>P_i.
            ebind (py_get \<sigma> i) (\<lambda>\<sigma>_i.
              ebind (py_get \<sigma> j) (\<lambda>\<sigma>_j.
                ebind (py_get \<mu> i) (\<lambda>\<mu>_i.
                  ebind (py_get \<mu> j) (\<lambda>\<mu>_j.
                    let QT = seed_QT m P_i \<sigma>_i \<sigma>_j \<mu>_i \<mu>_j;
                        QT_prime = QT
                    in ebind (efold (forward_step e T m \<mu> \<sigma> i j)
                                (range_py 1 (min s (l - max i j))) (QT, P, I)) (\<lambda>st.
                         let QT = QT_prime
                         in ebind (efold (backward_step e T m \<mu> \<sigma> i j)
                                     (range_py 1 (min s (min (i + 1) (j + 1))))
                                     (QT, fst (snd st), snd (snd st))) (\<lambda>st.
                              Inr (fst (snd st), snd (snd st)))))))))))"

text \<open>\<open>int(np.ceil(m / 4))\<close>.\<close>

definition excl_zone_of :: "int \<Rightarrow> int" where
  "excl_zone_of m = \<lceil>real_of_int m / 4\<rceil>"

text \<open>
  \<open>_prescrimp(T, m, \<mu>, \<sigma>, s)\<close>.  \<open>np.empty\<close> raises on a negative length.
\<close>

definition prescrimp ::
  "env \<Rightarrow> fl list \<Rightarrow> int \<Rightarrow> fl list \<Rightarrow> fl list \<Rightarrow> int option \<Rightarrow> error + (fl list \<times> int list)" where
  "prescrimp e T m \<mu> \<sigma> s =
     (let n = int (length T);
          l = n - m + 1
      in if l < 0 then Inl ValueError
         else
           let P = replicate (nat l) PInf;
               I = replicate (nat l) (- 1);
               excl_zone = excl_zone_of m;
               s = (case s of None \<Rightarrow> excl_zone | Some s \<Rightarrow> s)
           in ebind (range3 0 l s) (\<lambda>rows.
                ebind
                  (efold
                     (\<lambda>i PI.
                        ebind (prescrimp_scan e T m \<mu> \<sigma> l excl_zone i PI)
                          (prescrimp_extend e T m \<mu> \<sigma> s l i))
                     (permutation_rows e rows) (P, I))
                  (\<lambda>PI. Inr (map fl_sqrt (fst PI), snd PI))))"

section \<open>scrimp.py: the generator\<close>

text \<open>
  The running profile \<open>out\<close> is an array of rows \<open>(distance, index)\<close>.  The generator
  yields the array itself, so the model keeps arrays of this kind in a store, a list of
  arrays addressed by position, and a yielded item is an address.
\<close>

type_synonym profile = "(fl \<times> int) list"

type_synonym store = "profile list"

text \<open>
  The local variables of a suspended \<open>scrimp\<close> generator (\<open>g_T\<close> is \<open>T\<close>, and so on);
  \<open>g_out\<close> is the address of \<open>out\<close>, and \<open>g_round\<close> counts the rounds made.
\<close>

record gen =
  g_T :: "fl list"
  g_m :: int
  g_\<mu> :: "fl list"
  g_\<sigma> :: "fl list"
  g_excl_zone :: int
  g_orders :: "int list"
  g_n_threads :: int
  g_percentage :: real
  g_generator_rounds :: int
  g_round :: int
  g_start :: int
  g_out :: nat

text \<open>
  The merge of a round's result into the running profile, at row \<open>i\<close>:
  \<open>if out[i, 0] > P[i]: out[i, 0] = P[i]; out[i, 1] = I[i]\<close>.
\<close>

definition merge_step :: "fl list \<Rightarrow> int list \<Rightarrow> int \<Rightarrow> profile \<Rightarrow> error + profile" where
  "merge_step P I i out =
     ebind (py_get out i) (\<lambda>row.
       ebind (py_get P i) (\<lambda>p.
         if fl_greater (fst row) p then
           ebind (py_get I i) (\<lambda>idx. py_set out i (p, idx))
         else Inr out))"

text \<open>
  \<open>scrimp(T, m, percentage, prescrimp, s)\<close> up to its loop: the code that runs when the
  first item is asked for.  \<open>T\<close> is a one-dimensional array by its type.  Dividing by a
  zero \<open>percentage\<close> raises.  The array \<open>out\<close> is put in the store at a new address.
\<close>

definition scrimp_start ::
  "env \<Rightarrow> store \<Rightarrow> fl list \<Rightarrow> int \<Rightarrow> real \<Rightarrow> bool \<Rightarrow> int option \<Rightarrow> error + (store \<times> gen)" where
  "scrimp_start e h T m percentage do_prescrimp s =
     (let T = map (\<lambda>x. if x = PInf \<or> x = NInf then NaN else x) T
      in if \<not> check_window_size e m then Inl ValueError
         else
           let n = int (length T);
               l = n - m + 1
           in if l < 0 then Inl ValueError
              else
                let out = replicate (nat l) (PInf, - 1);
                    \<mu>\<sigma> = compute_mean_std e T m;
                    T = map (\<lambda>x. if x = NaN then Flt 0 else x) T;
                    excl_zone = excl_zone_of m;
                    s = (case s of None \<Rightarrow> excl_zone | Some s \<Rightarrow> s)
                in ebind
                     (if do_prescrimp then
                        ebind (prescrimp e T m (fst \<mu>\<sigma>) (snd \<mu>\<sigma>) (Some s)) (\<lambda>PI.
                          efold (merge_step (fst PI) (snd PI))
                            (range_py 0 (int (length (fst PI)))) out)
                      else Inr out)
                     (\<lambda>out.
                        let orders = permutation_orders e (range_py (excl_zone + 1) (n - m + 2));
                            n_threads = NUMBA_NUM_THREADS e;
                            percentage = min percentage 1;
                            percentage = max percentage 0
                        in if percentage = 0 then Inl ZeroDivisionError
                           else
                             Inr (h @ [out],
                                  \<lparr>g_T = T, g_m = m, g_\<mu> = fst \<mu>\<sigma>, g_\<sigma> = snd \<mu>\<sigma>,
                                   g_excl_zone = excl_zone, g_orders = orders,
                                   g_n_threads = n_threads, g_percentage = percentage,
                                   g_generator_rounds = \<lceil>1 / percentage\<rceil>,
                                   g_round = 0, g_start = 0, g_out = length h\<rparr>)))"

text \<open>
  One resumption of the generator: a round of the loop, which ends by yielding \<open>out\<close>
  (the address of the array, whose cells the round has updated in place), or the end of
  the loop (\<open>None\<close>).  \<open>orders_ranges[:, 1].max()\<close> raises on an array without rows.
\<close>

definition scrimp_next :: "env \<Rightarrow> store \<times> gen \<Rightarrow> error + (nat option \<times> store \<times> gen)" where
  "scrimp_next e hg =
     (case hg of (h, g) \<Rightarrow>
        if g_round g < g_generator_rounds g then
          ebind (get_orders_ranges (g_n_threads g) (g_m g) (int (length (g_T g))) (g_orders g)
                   (g_start g) (g_percentage g)) (\<lambda>orders_ranges.
            ebind (scrimp_inner e (g_T g) (g_m g) (g_\<mu> g) (g_\<sigma> g) (g_orders g) orders_ranges
                     (g_excl_zone g) (g_percentage g)) (\<lambda>PI.
              if orders_ranges = [] then Inl ValueError
              else
                let start = foldl max (snd (hd orders_ranges)) (map snd orders_ranges);
                    out = h ! g_out g
                in ebind (efold (merge_step (fst PI) (snd PI))
                            (range_py 0 (int (length out))) out) (\<lambda>out.
                     Inr (Some (g_out g), h[g_out g := out],
                          g\<lparr>g_start := start, g_round := g_round g + 1\<rparr>))))
        else Inr (None, h, g))"

text \<open>
  What a consumer that asks for at most \<open>k\<close> items receives: for each item, its address
  and the store at the moment it is yielded.  The list ends when the generator does, or
  raises.
\<close>

fun scrimp_items :: "env \<Rightarrow> nat \<Rightarrow> store \<times> gen \<Rightarrow> (nat \<times> store) list" where
  "scrimp_items e 0 hg = []"
| "scrimp_items e (Suc k) hg =
     (case scrimp_next e hg of
        Inr (Some a, h, g) \<Rightarrow> (a, h) # scrimp_items e k (h, g)
      | _ \<Rightarrow> [])"

section \<open>Notions used to state the properties\<close>

text \<open>
  The number of distances on the diagonals \<open>orders[a], \<dots>, orders[b - 1]\<close>: diagonal
  \<open>k\<close> has \<open>n - m + 2 - k\<close> of them.
\<close>

definition dist_count :: "int \<Rightarrow> int \<Rightarrow> int list \<Rightarrow> int \<Rightarrow> int \<Rightarrow> int" where
  "dist_count m n orders a b = sum_list (map (\<lambda>j. n - m + 2 - orders ! nat j) (range_py a b))"

text \<open>
  The rule of the specification for \<open>max_order_index\<close>, for a given total count
  \<open>total_dist\<close>: walk forward from \<open>start\<close>, accumulating the counts, until the
  running fraction of \<open>total_dist\<close> exceeds \<open>percentage\<close>; return the index after that point and the
  count accumulated so far.  When no point is found the walk ends after the last index.
\<close>

definition max_order_index_rule ::
  "int \<Rightarrow> int \<Rightarrow> int \<Rightarrow> int list \<Rightarrow> int \<Rightarrow> real \<Rightarrow> int \<times> int" where
  "max_order_index_rule total_dist m n orders start percentage =
     (case find (\<lambda>j. real_of_int (dist_count m n orders start (j + 1)) / real_of_int total_dist
                       > percentage)
             (range_py start (int (length orders))) of
        Some j \<Rightarrow> (j + 1, dist_count m n orders start (j + 1))
      | None \<Rightarrow> (int (length orders), dist_count m n orders start (int (length orders))))"

text \<open>
  The diagonal offsets that \<open>scrimp\<close> draws lie in \<open>[excl_zone + 1, n - m + 2)\<close>; for
  the splitting only the upper bound matters: every diagonal has a distance.
\<close>

definition valid_orders :: "int \<Rightarrow> int \<Rightarrow> int list \<Rightarrow> bool" where
  "valid_orders m n orders = (orders \<noteq> [] \<and> list_all (\<lambda>k. k < n - m + 2) orders)"


section \<open>The diagonal walk as a list of candidate updates\<close>

text \<open>
  What \<open>_compute_diagonal\<close> computes, without the bookkeeping of subscripts: the dot
  product at row \<open>i\<close> of diagonal \<open>k\<close> (seeded at row 0, then updated row by row), the
  squared distance there, and the two updates it proposes: \<open>(a, d, b)\<close> proposes the
  distance \<open>d\<close> and the match \<open>b\<close> for position \<open>a\<close>.  The lemma
  \<open>compute_diagonal_cands\<close> relates the two.
\<close>

fun QT_at :: "fl list \<Rightarrow> int \<Rightarrow> int \<Rightarrow> nat \<Rightarrow> fl" where
  "QT_at T m k 0 =
     foldl fl_add (Flt 0) (map2 fl_mul (take (nat m) T) (take (nat m) (drop (nat (k - 1)) T)))"
| "QT_at T m k (Suc i) =
     fl_add (fl_sub (QT_at T m k i) (fl_mul (T ! i) (T ! nat (int i + k - 1))))
            (fl_mul (T ! nat (int i + m)) (T ! nat (int i + k + m - 1)))"

definition D_at :: "env \<Rightarrow> fl list \<Rightarrow> int \<Rightarrow> fl list \<Rightarrow> fl list \<Rightarrow> int \<Rightarrow> int \<Rightarrow> fl" where
  "D_at e T m \<mu> \<sigma> k i =
     calculate_squared_distance e m (QT_at T m k (nat i)) (\<mu> ! nat i) (\<sigma> ! nat i)
       (\<mu> ! nat (i + k - 1)) (\<sigma> ! nat (i + k - 1))"

definition row_cands ::
  "env \<Rightarrow> fl list \<Rightarrow> int \<Rightarrow> fl list \<Rightarrow> fl list \<Rightarrow> int \<Rightarrow> int \<Rightarrow> int \<Rightarrow> (int \<times> fl \<times> int) list" where
  "row_cands e T m \<mu> \<sigma> excl_zone k i =
     (if i < i + k - 1 - excl_zone
      then [(i, D_at e T m \<mu> \<sigma> k i, i + k - 1), (i + k - 1, D_at e T m \<mu> \<sigma> k i, i)]
      else [])"

definition diag_cands ::
  "env \<Rightarrow> fl list \<Rightarrow> int \<Rightarrow> fl list \<Rightarrow> fl list \<Rightarrow> int \<Rightarrow> int \<Rightarrow> (int \<times> fl \<times> int) list" where
  "diag_cands e T m \<mu> \<sigma> excl_zone k =
     concat (map (row_cands e T m \<mu> \<sigma> excl_zone k) (range_py 0 (int (length T) - m + 2 - k)))"

definition walk_cands ::
  "env \<Rightarrow> fl list \<Rightarrow> int \<Rightarrow> fl list \<Rightarrow> fl list \<Rightarrow> int \<Rightarrow> int list \<Rightarrow> int list
     \<Rightarrow> (int \<times> fl \<times> int) list" where
  "walk_cands e T m \<mu> \<sigma> excl_zone orders js =
     concat (map (\<lambda>j. diag_cands e T m \<mu> \<sigma> excl_zone (orders ! nat j)) js)"

text \<open>A candidate applied to one worker's row of distances and row of indices.\<close>

definition upd :: "int \<times> fl \<times> int \<Rightarrow> fl list \<times> int list \<Rightarrow> fl list \<times> int list" where
  "upd c PI =
     (case c of (a, d, b) \<Rightarrow>
        if fl_less d (fst PI ! nat a) then ((fst PI)[nat a := d], (snd PI)[nat a := b])
        else PI)"

text \<open>The reduction of one worker's rows \<open>R\<close> into the rows \<open>PI\<close> of worker 0.\<close>

definition merge_rows :: "fl list \<times> int list \<Rightarrow> fl list \<times> int list \<Rightarrow> fl list \<times> int list" where
  "merge_rows PI R =
     (map (\<lambda>i. if fl_greater (fst PI ! i) (fst R ! i) then fst R ! i else fst PI ! i)
        [0..<length (fst PI)],
      map (\<lambda>i. if fl_greater (fst PI ! i) (fst R ! i) then snd R ! i else snd PI ! i)
        [0..<length (fst PI)])"

text \<open>
  The inputs on which \<open>_compute_diagonal\<close> is meant to run: a window of at least one
  point that fits the series, statistics of the length of the profile, a non-negative
  exclusion zone, and, at the indices \<open>js\<close> of \<open>orders\<close> that are walked, diagonals
  between \<open>excl_zone + 1\<close> and \<open>n - m + 1\<close>.
\<close>

definition walk_ok :: "fl list \<Rightarrow> int \<Rightarrow> fl list \<Rightarrow> fl list \<Rightarrow> int \<Rightarrow> int list \<Rightarrow> int list \<Rightarrow> bool" where
  "walk_ok T m \<mu> \<sigma> excl_zone orders js =
     (1 \<le> m \<and> m \<le> int (length T) \<and> 0 \<le> excl_zone
      \<and> int (length \<mu>) = int (length T) - m + 1 \<and> int (length \<sigma>) = int (length T) - m + 1
      \<and> list_all (\<lambda>j. 0 \<le> j \<and> j < int (length orders)
                       \<and> excl_zone + 1 \<le> orders ! nat j
                       \<and> orders ! nat j \<le> int (length T) - m + 1) js)"

section \<open>Collaborators for the evaluated examples\<close>

text \<open>
  The theorems below hold for every choice of the collaborators.  Where a property is
  evaluated on a concrete input, the collaborators are the following ones.  They are
  not taken from the sources (\<open>core.py\<close> is not among them); they compute what
  \<open>core.py\<close> is documented to compute on series of finite numbers.

  The squared distance of two z-normalised windows from their dot product \<open>QT\<close>:
  \<open>2m (1 - (QT - m \<mu>\<^sub>Q \<mu>\<^sub>T) / (m \<sigma>\<^sub>Q \<sigma>\<^sub>T))\<close>, infinite when a mean is infinite; when
  a window is constant (its standard deviation is 0) the quotient is not formed, and the
  squared distance is 0 between two constant windows and \<open>m\<close> otherwise.
\<close>

definition zn_squared_distance :: "int \<Rightarrow> fl \<Rightarrow> fl \<Rightarrow> fl \<Rightarrow> fl \<Rightarrow> fl \<Rightarrow> fl" where
  "zn_squared_distance m QT \<mu>_Q \<sigma>_Q M_T \<Sigma>_T =
     (if \<not> isfinite M_T \<and> M_T \<noteq> NaN \<or> \<not> isfinite \<mu>_Q \<and> \<mu>_Q \<noteq> NaN then PInf
      else if \<sigma>_Q = Flt 0 \<and> \<Sigma>_T = Flt 0 then Flt 0
      else if \<sigma>_Q = Flt 0 \<or> \<Sigma>_T = Flt 0 then Flt (real_of_int m)
      else fl_abs (fl_mul (Flt (2 * real_of_int m))
             (fl_sub (Flt 1)
                (fl_divide (fl_sub QT (fl_mul (fl_mul (Flt (real_of_int m)) \<mu>_Q) M_T))
                           (fl_mul (fl_mul (Flt (real_of_int m)) \<sigma>_Q) \<Sigma>_T)))))"

text \<open>The mean and the standard deviation of a window, and of every window of \<open>T\<close>.\<close>

definition window_mean :: "fl list \<Rightarrow> fl" where
  "window_mean w = fl_divide (foldl fl_add (Flt 0) w) (Flt (real (length w)))"

definition window_std :: "fl list \<Rightarrow> fl" where
  "window_std w = fl_sqrt (fl_sub (window_mean (map fl_square w)) (fl_square (window_mean w)))"

definition windows :: "fl list \<Rightarrow> int \<Rightarrow> fl list list" where
  "windows T m = map (\<lambda>j. take (nat m) (drop j T)) [0..<nat (int (length T) - m + 1)]"

definition sliding_mean_std :: "fl list \<Rightarrow> int \<Rightarrow> fl list \<times> fl list" where
  "sliding_mean_std T m = (map window_mean (windows T m), map window_std (windows T m))"

text \<open>The distance of the query \<open>Q\<close> to every window of \<open>T\<close>.\<close>

definition distance_profile :: "fl list \<Rightarrow> fl list \<Rightarrow> fl list \<Rightarrow> fl list \<Rightarrow> fl list" where
  "distance_profile Q T \<mu> \<sigma> =
     map (\<lambda>j. fl_sqrt (zn_squared_distance (int (length Q))
                 (foldl fl_add (Flt 0) (map2 fl_mul Q (take (length Q) (drop j T))))
                 (window_mean Q) (window_std Q) (\<mu> ! j) (\<sigma> ! j)))
       [0..<length \<mu>]"

text \<open>
  The environment of the examples: \<open>n_threads\<close> threads, the sampled rows visited in
  increasing order, and the diagonals in the order \<open>draw\<close>.
\<close>

definition example_env :: "int \<Rightarrow> int list \<Rightarrow> env" where
  "example_env n_threads draw =
     \<lparr>calculate_squared_distance = zn_squared_distance,
      mass = distance_profile,
      compute_mean_std = sliding_mean_std,
      check_window_size = (\<lambda>m. 3 \<le> m),
      NUMBA_NUM_THREADS = n_threads,
      permutation_rows = (\<lambda>rows. rows),
      permutation_orders = (\<lambda>orders. draw)\<rparr>"

section \<open>Invariants used in the proofs\<close>

text \<open>
  The loop of \<open>_get_orders_ranges\<close>, before it reaches index \<open>j\<close>: the rows below
  \<open>ranges_idx\<close> are cut and list \<open>[start, range_start_idx)\<close>, the rows from
  \<open>ranges_idx\<close> on are still zero, the running count is that of the diagonals from
  \<open>range_start_idx\<close> to \<open>j\<close> and has not passed the share, and every cut row has passed
  it by at most its last diagonal.
\<close>

definition ranges_inv ::
  "int \<Rightarrow> int \<Rightarrow> int list \<Rightarrow> int \<Rightarrow> int \<Rightarrow> real \<Rightarrow> int
     \<Rightarrow> (int \<times> int) list \<times> int \<times> int \<times> int \<Rightarrow> bool" where
  "ranges_inv m n orders n_split start share j st =
     (case st of (rs, ri, rsi, c) \<Rightarrow>
        int (length rs) = n_split \<and> 0 \<le> ri \<and> start \<le> rsi \<and> rsi \<le> j
        \<and> c = dist_count m n orders rsi j \<and> real_of_int c \<le> share
        \<and> concat (map (\<lambda>r. range_py (fst r) (snd r)) (take (nat ri) rs)) = range_py start rsi
        \<and> (\<forall>t. nat ri \<le> t \<and> t < length rs \<longrightarrow> rs ! t = (0, 0))
        \<and> (\<forall>r \<in> set (take (nat ri) rs).
              fst r < snd r \<and>
              real_of_int (dist_count m n orders (fst r) (snd r))
                \<le> share + real_of_int (n - m + 2 - orders ! nat (snd r - 1)))
        \<and> real_of_int ri * share \<le> real_of_int (dist_count m n orders start rsi)
        \<and> (0 < ri \<longrightarrow> real_of_int ri * share < real_of_int (dist_count m n orders start rsi)))"

text \<open>A row of distances without NaN, and the rows every worker starts from.\<close>

definition no_NaN :: "fl list \<Rightarrow> bool" where
  "no_NaN p = (NaN \<notin> set p)"

definition init_rows :: "int \<Rightarrow> fl list \<times> int list" where
  "init_rows l = (replicate (nat l) PInf, replicate (nat l) (- 1))"

text \<open>The rows that a worker with the range \<open>r\<close> of \<open>orders\<close> computes.\<close>

definition worker_rows ::
  "env \<Rightarrow> fl list \<Rightarrow> int \<Rightarrow> fl list \<Rightarrow> fl list \<Rightarrow> int \<Rightarrow> int list \<Rightarrow> int \<times> int
     \<Rightarrow> fl list \<times> int list" where
  "worker_rows e T m \<mu> \<sigma> excl_zone orders r =
     fold upd (walk_cands e T m \<mu> \<sigma> excl_zone orders (range_py (fst r) (snd r)))
       (init_rows (int (length T) - m + 1))"

text \<open>
  The snapshots that a consumer of \<open>scrimp\<close> reads, each at the moment it is yielded,
  when it asks for at most \<open>k\<close> items (none if the generator raises before its loop).
\<close>

definition scrimp_snapshots ::
  "env \<Rightarrow> nat \<Rightarrow> fl list \<Rightarrow> int \<Rightarrow> real \<Rightarrow> bool \<Rightarrow> int option \<Rightarrow> profile list" where
  "scrimp_snapshots e k T m percentage do_prescrimp s =
     (case scrimp_start e [] T m percentage do_prescrimp s of
        Inl err \<Rightarrow> []
      | Inr hg \<Rightarrow> map (\<lambda>item. snd item ! fst item) (scrimp_items e k hg))"


text \<open>
  Self-match exclusion for a column of indices: every index other than \<open>-1\<close> is more
  than \<open>excl_zone\<close> away from its position.
\<close>

definition self_match_excluded :: "int \<Rightarrow> int list \<Rightarrow> bool" where
  "self_match_excluded excl_zone I =
     list_all (\<lambda>p. snd p = - 1 \<or> excl_zone < \<bar>snd p - int (fst p)\<bar>) (zip [0..<length I] I)"

text \<open>
  The generator of the example on a constant series of 10 points with \<open>m = 8\<close>, as
  \<open>scrimp_start\<close> leaves it.
\<close>

definition g10 :: gen where
  "g10 = \<lparr>g_T = replicate 10 (Flt 1), g_m = 8, g_\<mu> = [Flt 1, Flt 1, Flt 1],
          g_\<sigma> = [Flt 0, Flt 0, Flt 0], g_excl_zone = 2, g_orders = [3], g_n_threads = 1,
          g_percentage = 1, g_generator_rounds = 1, g_round = 0, g_start = 0, g_out = 0\<rparr>"

text \<open>
  The generator of the example on a constant series of 5 points with \<open>m = 3\<close> and
  \<open>percentage = 0.5\<close>: two diagonals, one in each of two rounds.
\<close>

definition g5 :: gen where
  "g5 = \<lparr>g_T = replicate 5 (Flt 1), g_m = 3, g_\<mu> = [Flt 1, Flt 1, Flt 1],
         g_\<sigma> = [Flt 0, Flt 0, Flt 0], g_excl_zone = 1, g_orders = [2, 3], g_n_threads = 1,
         g_percentage = 1 / 2, g_generator_rounds = 2, g_round = 0, g_start = 0, g_out = 0\<rparr>"

section \<open>The rule of the specification for the extension of PreSCRIMP\<close>

text \<open>
  The exclusion test of the diagonal walker, \<open>row < column - excl_zone\<close>, for a pair
  given in any order.
\<close>

definition outside_zone :: "int \<Rightarrow> int \<Rightarrow> int \<Rightarrow> bool" where
  "outside_zone excl_zone a b = (min a b < max a b - excl_zone)"

definition improve1_rule ::
  "int \<Rightarrow> int \<Rightarrow> fl \<Rightarrow> int \<Rightarrow> fl list \<times> int list \<Rightarrow> error + (fl list \<times> int list)" where
  "improve1_rule excl_zone a D_squared b PI =
     (if outside_zone excl_zone a b then improve1 a D_squared b PI else Inr PI)"

text \<open>
  One step of the extension, to the pair \<open>(a, b)\<close>: the dot product loses the product of
  the points at \<open>(r1, r2)\<close> and gains that of the points at \<open>(n1, n2)\<close>, and the
  distance found updates the best of row \<open>a\<close> and the best of column \<open>b\<close>, each under
  strict improvement and the exclusion test.
\<close>

definition extension_step_rule ::
  "env \<Rightarrow> fl list \<Rightarrow> int \<Rightarrow> fl list \<Rightarrow> fl list \<Rightarrow> int \<Rightarrow> int \<Rightarrow> int \<Rightarrow> int \<Rightarrow> int \<Rightarrow> int \<Rightarrow> int
     \<Rightarrow> fl \<times> fl list \<times> int list \<Rightarrow> error + (fl \<times> fl list \<times> int list)" where
  "extension_step_rule e T m \<mu> \<sigma> excl_zone a b r1 r2 n1 n2 st =
     (case st of (QT, P, I) \<Rightarrow>
        ebind (py_get T r1) (\<lambda>t1.
          ebind (py_get T r2) (\<lambda>t2.
            ebind (py_get T n1) (\<lambda>t3.
              ebind (py_get T n2) (\<lambda>t4.
                let QT = fl_add (fl_sub QT (fl_mul t1 t2)) (fl_mul t3 t4)
                in ebind (py_get \<mu> a) (\<lambda>\<mu>_a.
                     ebind (py_get \<sigma> a) (\<lambda>\<sigma>_a.
                       ebind (py_get \<mu> b) (\<lambda>\<mu>_b.
                         ebind (py_get \<sigma> b) (\<lambda>\<sigma>_b.
                           let D_squared =
                                 calculate_squared_distance e m QT \<mu>_a \<sigma>_a \<mu>_b \<sigma>_b
                           in ebind (improve1_rule excl_zone a D_squared b (P, I)) (\<lambda>PI.
                                ebind (improve1_rule excl_zone b D_squared a PI) (\<lambda>PI.
                                  Inr (QT, fst PI, snd PI))))))))))))"

text \<open>
  The extension from the best pair \<open>(i, j)\<close>, \<open>j = I[i]\<close>: the dot product is seeded
  with \<open>(m - P[i] / 2) \<sigma>\<^sub>i \<sigma>\<^sub>j + m \<mu>\<^sub>i \<mu>\<^sub>j\<close>; then \<open>min(s, l - max(i, j)) - 1\<close> steps
  forward, to the pairs \<open>(i + k, j + k)\<close>, and, from the seed again,
  \<open>min(s, i + 1, j + 1) - 1\<close> steps backward, to the pairs \<open>(i - k, j - k)\<close>.
\<close>

definition extension_rule ::
  "env \<Rightarrow> fl list \<Rightarrow> int \<Rightarrow> fl list \<Rightarrow> fl list \<Rightarrow> int \<Rightarrow> int \<Rightarrow> int \<Rightarrow> int \<Rightarrow> fl list \<times> int list
     \<Rightarrow> error + (fl list \<times> int list)" where
  "extension_rule e T m \<mu> \<sigma> excl_zone s l i PI =
     (case PI of (P, I) \<Rightarrow>
        ebind (py_get I i) (\<lambda>j.
          ebind (py_get P i) (\<lambda>P_i.
            ebind (py_get \<sigma> i) (\<lambda>\<sigma>_i.
              ebind (py_get \<sigma> j) (\<lambda>\<sigma>_j.
                ebind (py_get \<mu> i) (\<lambda>\<mu>_i.
                  ebind (py_get \<mu> j) (\<lambda>\<mu>_j.
                    let QT = fl_add (fl_mul (fl_sub (Flt (real_of_int m)) (fl_divide P_i (Flt 2)))
                                       (fl_mul \<sigma>_i \<sigma>_j))
                                    (fl_mul (fl_mul (Flt (real_of_int m)) \<mu>_i) \<mu>_j);
                        forward = map (\<lambda>k. 1 + int k) [0..<nat (min s (l - max i j) - 1)];
                        backward = map (\<lambda>k. 1 + int k) [0..<nat (min s (min (i + 1) (j + 1)) - 1)]
                    in ebind (efold (\<lambda>k. extension_step_rule e T m \<mu> \<sigma> excl_zone
                                           (i + k) (j + k) (i + k - 1) (j + k - 1)
                                           (i + k + m - 1) (j + k + m - 1))
                                forward (QT, P, I)) (\<lambda>st.
                         ebind (efold (\<lambda>k. extension_step_rule e T m \<mu> \<sigma> excl_zone
                                                (i - k) (j - k) (i - k + m) (j - k + m)
                                                (i - k) (j - k))
                                     backward (QT, fst (snd st), snd (snd st))) (\<lambda>st.
                           Inr (fst (snd st), snd (snd st)))))))))))"

section \<open>Notions used for the generator\<close>

text \<open>
  A profile improves on another one: same length, and at every position a distance
  that is at most the earlier one (as floats, so neither is NaN).
\<close>

definition improves_on :: "profile \<Rightarrow> profile \<Rightarrow> bool" where
  "improves_on new old =
     (length new = length old
      \<and> list_all (\<lambda>i. fl_le (fst (new ! i)) (fst (old ! i))) [0..<length old])"

text \<open>The running profile of a generator is in the store and holds no NaN.\<close>

definition out_ok :: "store \<times> gen \<Rightarrow> bool" where
  "out_ok hg = (g_out (snd hg) < length (fst hg)
                \<and> list_all (\<lambda>row. fst row \<noteq> NaN) (fst hg ! g_out (snd hg)))"

text \<open>
  A call \<open>scrimp(T, m, \<dots>)\<close> whose collaborators behave: the window has at least one
  point, at least one diagonal lies beyond the exclusion zone, the statistics have one
  cell per window, the draw of the diagonals returns the diagonals it is given, in some
  order, and there is at least one thread.
\<close>

definition call_ok :: "env \<Rightarrow> fl list \<Rightarrow> int \<Rightarrow> bool" where
  "call_ok e T m =
     (let T' = map (\<lambda>x. if x = PInf \<or> x = NInf then NaN else x) T;
          l = int (length T) - m + 1;
          ks = range_py (excl_zone_of m + 1) (int (length T) - m + 2)
      in 1 \<le> m \<and> excl_zone_of m < l
         \<and> int (length (fst (compute_mean_std e T' m))) = l
         \<and> int (length (snd (compute_mean_std e T' m))) = l
         \<and> set (permutation_orders e ks) = set ks
         \<and> 1 \<le> NUMBA_NUM_THREADS e)"

text \<open>
  A suspended generator whose every further round runs: its profile is in the store and
  has one row per window, every diagonal of \<open>orders\<close> can be walked, and \<open>start\<close> is an
  index of \<open>orders\<close> or its length.
\<close>

definition gen_ok :: "env \<Rightarrow> store \<times> gen \<Rightarrow> bool" where
  "gen_ok e hg =
     (case hg of (h, g) \<Rightarrow>
        g_out g < length h
        \<and> int (length (h ! g_out g)) = int (length (g_T g)) - g_m g + 1
        \<and> g_orders g \<noteq> []
        \<and> walk_ok (g_T g) (g_m g) (g_\<mu> g) (g_\<sigma> g) (g_excl_zone g) (g_orders g)
             (range_py 0 (int (length (g_orders g))))
        \<and> 0 \<le> g_start g \<and> g_start g \<le> int (length (g_orders g))
        \<and> g_n_threads g = NUMBA_NUM_THREADS e \<and> 1 \<le> NUMBA_NUM_THREADS e)"

section \<open>Basic facts about the operations\<close>


lemma ebind_Inr [simp]: "ebind (Inr x) f = f x" by (simp add: ebind_def)
lemma ebind_Inl [simp]: "ebind (Inl x) f = Inl x" by (simp add: ebind_def)

lemma range_py_empty [simp]: "b \<le> a \<Longrightarrow> range_py a b = []"
  by (simp add: range_py_def)

lemma range_py_rec: "a < b \<Longrightarrow> range_py a b = a # range_py (a + 1) b"
proof -
  assume ab: "a < b"
  then obtain d where d: "nat (b - a) = Suc d" by (cases "nat (b - a)") auto
  then have d': "nat (b - (a + 1)) = d" by linarith
  have "[0..<Suc d] = 0 # map Suc [0..<d]"
    by (simp add: upt_conv_Cons map_Suc_upt del: upt_Suc)
  then show ?thesis
    unfolding range_py_def d d' by (simp add: comp_def)
qed

lemma range_py_snoc: "a < b \<Longrightarrow> range_py a b = range_py a (b - 1) @ [b - 1]"
proof -
  assume ab: "a < b"
  then obtain d where d: "nat (b - a) = Suc d" by (cases "nat (b - a)") auto
  then have d': "nat (b - 1 - a) = d" by linarith
  have "a + int d = b - 1" using d by linarith
  then show ?thesis unfolding range_py_def d d' by simp
qed

lemma range_py_append: "a \<le> b \<Longrightarrow> b \<le> c \<Longrightarrow> range_py a c = range_py a b @ range_py b c"
proof (induction "nat (c - b)" arbitrary: c)
  case 0
  then show ?case by simp
next
  case (Suc d)
  then have bc: "b < c" by linarith
  have "range_py a c = range_py a (c - 1) @ [c - 1]"
    using Suc.prems bc by (intro range_py_snoc) linarith
  also have "range_py a (c - 1) = range_py a b @ range_py b (c - 1)"
    using Suc bc by (intro Suc.hyps(1)) linarith+
  finally show ?case using range_py_snoc[OF bc] by simp
qed

lemma set_range_py [simp]: "set (range_py a b) = {a..<b}"
proof (rule set_eqI)
  fix x
  show "x \<in> set (range_py a b) \<longleftrightarrow> x \<in> {a..<b}"
  proof
    assume "x \<in> set (range_py a b)"
    then obtain i where "i < nat (b - a)" "x = a + int i" by (auto simp: range_py_def)
    then show "x \<in> {a..<b}" by auto
  next
    assume x: "x \<in> {a..<b}"
    then have "nat (x - a) < nat (b - a)" "x = a + int (nat (x - a))" by auto
    then show "x \<in> set (range_py a b)" unfolding range_py_def by (metis (no_types, lifting) atLeast0LessThan image_eqI lessThan_iff set_map set_upt)
  qed
qed

lemma length_range_py [simp]: "length (range_py a b) = nat (b - a)"
  by (simp add: range_py_def)

lemma dist_count_empty [simp]: "b \<le> a \<Longrightarrow> dist_count m n orders a b = 0"
  by (simp add: dist_count_def)

lemma dist_count_snoc:
  "a < b \<Longrightarrow> dist_count m n orders a b = dist_count m n orders a (b - 1) + (n - m + 2 - orders ! nat (b - 1))"
  by (simp add: dist_count_def range_py_snoc)


lemma getitem_in [simp]: "0 \<le> i \<Longrightarrow> i < int (length xs) \<Longrightarrow> getitem xs i = Inr (xs ! nat i)"
  by (simp add: getitem_def)

lemma setitem_in [simp]:
  "0 \<le> i \<Longrightarrow> i < int (length xs) \<Longrightarrow> setitem xs i v = Inr (xs[nat i := v])"
  by (simp add: setitem_def)

lemma max_order_walk_rule:
  assumes "0 \<le> start" "start \<le> a" "a \<le> int (length orders)" "total_dist \<noteq> 0"
  shows "max_order_walk m n orders percentage total_dist (range_py a (int (length orders))) oi
           (dist_count m n orders start a) =
         Inr (case find (\<lambda>j. real_of_int (dist_count m n orders start (j + 1)) / real_of_int total_dist
                               > percentage) (range_py a (int (length orders))) of
                Some j \<Rightarrow> (Some j, dist_count m n orders start (j + 1))
              | None \<Rightarrow> (if a < int (length orders) then Some (int (length orders) - 1) else oi,
                         dist_count m n orders start (int (length orders))))"
  using assms
proof (induction "nat (int (length orders) - a)" arbitrary: a oi)
  case 0
  then have "a = int (length orders)" by linarith
  then show ?case by simp
next
  case (Suc d)
  then have lt: "a < int (length orders)" by linarith
  have step: "dist_count m n orders start (a + 1) = dist_count m n orders start a + (n - m + 2 - orders ! nat a)"
    using dist_count_snoc[of start "a + 1" m n orders] Suc.prems by simp
  have get: "getitem orders a = Inr (orders ! nat a)"
    using lt Suc.prems by simp
  have IH: "max_order_walk m n orders percentage total_dist (range_py (a + 1) (int (length orders))) (Some a)
           (dist_count m n orders start (a + 1)) =
         Inr (case find (\<lambda>j. real_of_int (dist_count m n orders start (j + 1)) / real_of_int total_dist
                               > percentage) (range_py (a + 1) (int (length orders))) of
                Some j \<Rightarrow> (Some j, dist_count m n orders start (j + 1))
              | None \<Rightarrow> (if a + 1 < int (length orders) then Some (int (length orders) - 1) else Some a,
                         dist_count m n orders start (int (length orders))))"
    using Suc.prems lt by (intro Suc.hyps(1)) (use Suc.hyps(2) in linarith)+
  define c' where "c' = dist_count m n orders start (a + 1)"
  have unfold: "max_order_walk m n orders percentage total_dist (range_py a (int (length orders))) oi
           (dist_count m n orders start a) =
        (if real_of_int c' / real_of_int total_dist > percentage then Inr (Some a, c')
         else max_order_walk m n orders percentage total_dist (range_py (a + 1) (int (length orders)))
                (Some a) c')"
    using Suc.prems(4) unfolding range_py_rec[OF lt] max_order_walk.simps get ebind_Inr Let_def
      step[symmetric] c'_def by simp
  have find_unfold: "find (\<lambda>j. real_of_int (dist_count m n orders start (j + 1)) / real_of_int total_dist
                               > percentage) (range_py a (int (length orders))) =
      (if real_of_int c' / real_of_int total_dist > percentage then Some a
       else find (\<lambda>j. real_of_int (dist_count m n orders start (j + 1)) / real_of_int total_dist
                               > percentage) (range_py (a + 1) (int (length orders))))"
    unfolding range_py_rec[OF lt] c'_def by simp
  have last: "\<not> a + 1 < int (length orders) \<Longrightarrow> a = int (length orders) - 1" using lt by linarith
  show ?case
    unfolding unfold find_unfold using IH last lt unfolding c'_def
    by (simp split: option.splits)
qed

lemma foldl_add_sum: "foldl (\<lambda>acc k. acc + f k) c xs = c + sum_list (map f xs)" for c :: int
  by (induction xs arbitrary: c) auto

lemma range_py_0: "range_py 0 (int k) = map int [0..<k]"
  by (simp add: range_py_def)

lemma map_nth_range_py: "map (\<lambda>j. f (xs ! nat j)) (range_py 0 (int (length xs))) = map f xs"
proof -
  have "map (\<lambda>j. f (xs ! nat j)) (range_py 0 (int (length xs))) = map f (map ((!) xs) [0..<length xs])"
    unfolding range_py_0 by (simp add: comp_def)
  then show ?thesis by (simp only: map_nth)
qed

lemma total_dist_count:
  "foldl (\<lambda>max_n_dist k. max_n_dist + (n - m + 2 - k)) 0 orders = dist_count m n orders 0 (int (length orders))"
  unfolding dist_count_def map_nth_range_py[of "\<lambda>k. n - m + 2 - k"] by (simp add: foldl_add_sum)

lemma get_max_order_idx_rule:
  assumes "orders \<noteq> []" "0 \<le> start" "start \<le> int (length orders)"
    "dist_count m n orders 0 (int (length orders)) \<noteq> 0"
  shows "get_max_order_idx m n orders start percentage =
         Inr (max_order_index_rule (dist_count m n orders 0 (int (length orders))) m n orders start percentage)"
proof -
  define td where "td = dist_count m n orders 0 (int (length orders))"
  define found where "found = find (\<lambda>j. real_of_int (dist_count m n orders start (j + 1)) / real_of_int td
                               > percentage) (range_py start (int (length orders)))"
  have z: "dist_count m n orders start start = 0" by simp
  have W: "max_order_walk m n orders percentage td (range_py start (int (length orders)))
             (Some (int (length orders) - 1)) 0 =
           Inr (case found of
                  Some j \<Rightarrow> (Some j, dist_count m n orders start (j + 1))
                | None \<Rightarrow> (Some (int (length orders) - 1), dist_count m n orders start (int (length orders))))"
    using max_order_walk_rule[OF assms(2) order_refl assms(3), of td m n percentage
        "Some (int (length orders) - 1)"] assms(4)
    unfolding z td_def found_def by (simp split: option.splits)
  show ?thesis
    unfolding get_max_order_idx_def max_order_index_rule_def total_dist_count Let_def
      td_def[symmetric] found_def[symmetric]
    using assms(1) W by (cases found) simp_all
qed



lemma dist_count_append:
  "a \<le> b \<Longrightarrow> b \<le> c \<Longrightarrow> dist_count m n orders a c = dist_count m n orders a b + dist_count m n orders b c"
  by (simp add: dist_count_def range_py_append[of a b c])

lemma valid_orders_nth:
  "valid_orders m n orders \<Longrightarrow> 0 \<le> j \<Longrightarrow> j < int (length orders) \<Longrightarrow> 1 \<le> n - m + 2 - orders ! nat j"
proof -
  assume v: "valid_orders m n orders" and j: "0 \<le> j" "j < int (length orders)"
  then have "orders ! nat j \<in> set orders" by simp
  with v have "orders ! nat j < n - m + 2" by (auto simp: valid_orders_def list_all_iff)
  then show ?thesis by simp
qed

lemma dist_count_lower:
  assumes "valid_orders m n orders" "0 \<le> a" "a \<le> b" "b \<le> int (length orders)"
  shows "b - a \<le> dist_count m n orders a b"
  using assms(3,4)
proof (induction "nat (b - a)" arbitrary: b)
  case 0
  then show ?case by simp
next
  case (Suc d)
  then have ab: "a < b" by linarith
  have "b - 1 - a \<le> dist_count m n orders a (b - 1)"
    using Suc ab by (intro Suc.hyps(1)) linarith+
  moreover have "1 \<le> n - m + 2 - orders ! nat (b - 1)"
    using valid_orders_nth[OF assms(1), of "b - 1"] assms(2) ab Suc.prems by simp
  ultimately show ?case using dist_count_snoc[OF ab, of m n orders] by linarith
qed

lemma dist_count_nonneg:
  "valid_orders m n orders \<Longrightarrow> 0 \<le> a \<Longrightarrow> b \<le> int (length orders) \<Longrightarrow> 0 \<le> dist_count m n orders a b"
  using dist_count_lower[of m n orders a b] by (cases "a \<le> b") auto

lemma dist_count_total_pos:
  "valid_orders m n orders \<Longrightarrow> 0 < dist_count m n orders 0 (int (length orders))"
proof -
  assume v: "valid_orders m n orders"
  then have "0 < int (length orders)" by (simp add: valid_orders_def)
  with dist_count_lower[OF v, of 0 "int (length orders)"] show ?thesis by linarith
qed


section \<open>The diagonal walk and its candidates\<close>


lemma length_upd [simp]: "length (fst (upd c PI)) = length (fst PI)" "length (snd (upd c PI)) = length (snd PI)"
  by (auto simp: upd_def split: prod.splits)

lemma length_fold_upd [simp]:
  "length (fst (fold upd cs PI)) = length (fst PI)" "length (snd (fold upd cs PI)) = length (snd PI)"
  by (induction cs arbitrary: PI) auto

lemma getitem2_row:
  assumes "0 \<le> t" "t < int (length P)" "0 \<le> a" "a < int (length p)"
  shows "getitem2 (P[nat t := p]) t a = Inr (p ! nat a)"
  using assms by (simp add: getitem2_def)

lemma setitem2_row:
  assumes "0 \<le> t" "t < int (length P)" "0 \<le> a" "a < int (length p)"
  shows "setitem2 (P[nat t := p]) t a v = Inr (P[nat t := p[nat a := v]])"
  using assms by (simp add: setitem2_def)

lemma improve_row:
  assumes "0 \<le> t" "t < int (length P)" "length I = length P"
    "0 \<le> a" "a < int (length p)" "length q = length p"
  shows "improve t a d b (P[nat t := p], I[nat t := q]) =
         Inr (P[nat t := fst (upd (a, d, b) (p, q))], I[nat t := snd (upd (a, d, b) (p, q))])"
  using assms by (simp add: improve_def getitem2_row setitem2_row upd_def)


lemma getslice_in [simp]:
  "0 \<le> a \<Longrightarrow> a \<le> b \<Longrightarrow> b \<le> int (length xs) \<Longrightarrow>
   getslice xs a b = Inr (take (nat (b - a)) (drop (nat a) xs))"
  by (simp add: getslice_def)

lemma QT_seed:
  assumes "1 \<le> m" "1 \<le> k" "k \<le> int (length T) - m + 1"
  shows "ebind (getslice T 0 (0 + m)) (\<lambda>a.
           ebind (getslice T (0 + k - 1) (0 + k - 1 + m)) (\<lambda>b. dot a b)) = Inr (QT_at T m k 0)"
proof -
  have 1: "getslice T 0 (0 + m) = Inr (take (nat m) T)" using assms by simp
  have 2: "getslice T (0 + k - 1) (0 + k - 1 + m) = Inr (take (nat m) (drop (nat (k - 1)) T))"
    using assms by simp
  have len: "length (take (nat m) T) = length (take (nat m) (drop (nat (k - 1)) T))"
    using assms by simp
  show ?thesis unfolding 1 2 by (simp add: dot_def len del: length_take)
qed

lemma QT_next:
  assumes "1 \<le> m" "1 \<le> k" "1 \<le> i" "i < int (length T) - m + 2 - k"
  shows "ebind (getitem T (i - 1)) (\<lambda>t1.
           ebind (getitem T (i + k - 2)) (\<lambda>t2.
             ebind (getitem T (i + m - 1)) (\<lambda>t3.
               ebind (getitem T (i + k + m - 2)) (\<lambda>t4.
                 Inr (fl_add (fl_sub (QT_at T m k (nat (i - 1))) (fl_mul t1 t2)) (fl_mul t3 t4))))))
         = Inr (QT_at T m k (nat i))"
proof -
  obtain i' where i': "nat i = Suc i'" "nat (i - 1) = i'" "int i' = i - 1"
    using assms(3) by (cases "nat i") auto
  have idx: "int i' + k - 1 = i + k - 2" "int i' + m = i + m - 1" "int i' + k + m - 1 = i + k + m - 2"
    using i' by auto
  have gets: "getitem T (i - 1) = Inr (T ! i')" "getitem T (i + k - 2) = Inr (T ! nat (i + k - 2))"
    "getitem T (i + m - 1) = Inr (T ! nat (i + m - 1))"
    "getitem T (i + k + m - 2) = Inr (T ! nat (i + k + m - 2))"
    using assms i' by (auto simp: getitem_def)
  show ?thesis
    unfolding i'(1,2) QT_at.simps idx gets ebind_Inr ..
qed

lemma diagonal_step_row:
  assumes m: "1 \<le> m" and k: "excl_zone + 1 \<le> k" "k \<le> int (length T) - m + 1"
    and ez: "0 \<le> excl_zone"
    and i: "0 \<le> i" "i < int (length T) - m + 2 - k"
    and lens: "int (length \<mu>) = int (length T) - m + 1" "int (length \<sigma>) = int (length T) - m + 1"
      "int (length p) = int (length T) - m + 1" "length q = length p"
    and t: "0 \<le> t" "t < int (length P)" "length I = length P"
    and QT: "0 < i \<Longrightarrow> QT = QT_at T m k (nat (i - 1))"
  shows "diagonal_step e T m \<mu> \<sigma> excl_zone t k i (QT, P[nat t := p], I[nat t := q]) =
         Inr (QT_at T m k (nat i),
              P[nat t := fst (fold upd (row_cands e T m \<mu> \<sigma> excl_zone k i) (p, q))],
              I[nat t := snd (fold upd (row_cands e T m \<mu> \<sigma> excl_zone k i) (p, q))])"
proof -
  have k1: "1 \<le> k" using k ez by simp
  have qt: "(if i = 0 then
             ebind (getslice T i (i + m)) (\<lambda>a.
               ebind (getslice T (i + k - 1) (i + k - 1 + m)) (\<lambda>b. dot a b))
           else
             ebind (getitem T (i - 1)) (\<lambda>t1.
               ebind (getitem T (i + k - 2)) (\<lambda>t2.
                 ebind (getitem T (i + m - 1)) (\<lambda>t3.
                   ebind (getitem T (i + k + m - 2)) (\<lambda>t4.
                     Inr (fl_add (fl_sub QT (fl_mul t1 t2)) (fl_mul t3 t4)))))))
          = Inr (QT_at T m k (nat i))"
  proof (cases "i = 0")
    case True
    then show ?thesis using QT_seed[OF m k1 k(2)] by simp
  next
    case False
    then have "1 \<le> i" using i by simp
    then show ?thesis using QT_next[OF m k1 _ i(2)] QT False by simp
  qed
  have stats: "getitem \<mu> i = Inr (\<mu> ! nat i)" "getitem \<sigma> i = Inr (\<sigma> ! nat i)"
    "getitem \<mu> (i + k - 1) = Inr (\<mu> ! nat (i + k - 1))"
    "getitem \<sigma> (i + k - 1) = Inr (\<sigma> ! nat (i + k - 1))"
    using i k1 lens by auto
  define D where "D = D_at e T m \<mu> \<sigma> k i"
  have Dq: "calculate_squared_distance e m (QT_at T m k (nat i)) (\<mu> ! nat i) (\<sigma> ! nat i)
       (\<mu> ! nat (i + k - 1)) (\<sigma> ! nat (i + k - 1)) = D"
    unfolding D_def D_at_def ..
  have a1: "0 \<le> i" "i < int (length p)" using i lens k1 by auto
  have a2: "0 \<le> i + k - 1" "i + k - 1 < int (length p)" using i lens k1 by auto
  show ?thesis
  proof (cases "i < i + k - 1 - excl_zone")
    case True
    define R1 where "R1 = upd (i, D, i + k - 1) (p, q)"
    have l1: "i + k - 1 < int (length (fst R1))" "length (snd R1) = length (fst R1)"
      unfolding R1_def using a2 lens by simp_all
    have s1: "improve t i D (i + k - 1) (P[nat t := p], I[nat t := q]) =
              Inr (P[nat t := fst R1], I[nat t := snd R1])"
      unfolding R1_def using improve_row[OF t a1 lens(4)] .
    have s2: "improve t (i + k - 1) D i (P[nat t := fst R1], I[nat t := snd R1]) =
              Inr (P[nat t := fst (upd (i + k - 1, D, i) R1)], I[nat t := snd (upd (i + k - 1, D, i) R1)])"
      using improve_row[OF t a2(1) l1, of D i] by simp
    have rc: "fold upd (row_cands e T m \<mu> \<sigma> excl_zone k i) (p, q) = upd (i + k - 1, D, i) R1"
      unfolding row_cands_def R1_def D_def using True by simp
    show ?thesis
      unfolding diagonal_step_def prod.case qt ebind_Inr stats Dq Let_def rc
      using True by (simp add: s1 s2)
  next
    case False
    have rc: "fold upd (row_cands e T m \<mu> \<sigma> excl_zone k i) (p, q) = (p, q)"
      unfolding row_cands_def using False by simp
    show ?thesis
      unfolding diagonal_step_def prod.case qt ebind_Inr stats Dq Let_def rc
      using False by simp
  qed
qed


lemma efold_append: "efold f (xs @ ys) s = ebind (efold f xs s) (efold f ys)"
  by (induction xs arbitrary: s) (auto simp: ebind_def split: sum.splits)

lemma diagonal_rows:
  assumes m: "1 \<le> m" and k: "excl_zone + 1 \<le> k" "k \<le> int (length T) - m + 1"
    and ez: "0 \<le> excl_zone"
    and lens: "int (length \<mu>) = int (length T) - m + 1" "int (length \<sigma>) = int (length T) - m + 1"
    and t: "0 \<le> t" "t < int (length P)" "length I = length P"
  shows "0 \<le> i \<Longrightarrow> i \<le> int (length T) - m + 2 - k \<Longrightarrow>
         (0 < i \<Longrightarrow> QT = QT_at T m k (nat (i - 1))) \<Longrightarrow>
         int (length p) = int (length T) - m + 1 \<Longrightarrow> length q = length p \<Longrightarrow>
         \<exists>QT'. efold (diagonal_step e T m \<mu> \<sigma> excl_zone t k)
                 (range_py i (int (length T) - m + 2 - k)) (QT, P[nat t := p], I[nat t := q]) =
               Inr (QT',
                    P[nat t := fst (fold upd (concat (map (row_cands e T m \<mu> \<sigma> excl_zone k)
                                       (range_py i (int (length T) - m + 2 - k)))) (p, q))],
                    I[nat t := snd (fold upd (concat (map (row_cands e T m \<mu> \<sigma> excl_zone k)
                                       (range_py i (int (length T) - m + 2 - k)))) (p, q))])"
proof (induction "nat (int (length T) - m + 2 - k - i)" arbitrary: i QT p q)
  case 0
  then have "range_py i (int (length T) - m + 2 - k) = []" by simp
  then show ?case by simp
next
  case (Suc d)
  then have lt: "i < int (length T) - m + 2 - k" by linarith
  define R where "R = fold upd (row_cands e T m \<mu> \<sigma> excl_zone k i) (p, q)"
  have step: "diagonal_step e T m \<mu> \<sigma> excl_zone t k i (QT, P[nat t := p], I[nat t := q]) =
         Inr (QT_at T m k (nat i), P[nat t := fst R], I[nat t := snd R])"
    unfolding R_def
    using diagonal_step_row[OF m k ez Suc.prems(1) lt lens Suc.prems(4,5) t] Suc.prems(3) by simp
  have lR: "int (length (fst R)) = int (length T) - m + 1" "length (snd R) = length (fst R)"
    unfolding R_def using Suc.prems(4,5) by simp_all
  have "\<exists>QT'. efold (diagonal_step e T m \<mu> \<sigma> excl_zone t k)
                 (range_py (i + 1) (int (length T) - m + 2 - k))
                 (QT_at T m k (nat i), P[nat t := fst R], I[nat t := snd R]) =
               Inr (QT',
                    P[nat t := fst (fold upd (concat (map (row_cands e T m \<mu> \<sigma> excl_zone k)
                                       (range_py (i + 1) (int (length T) - m + 2 - k)))) (fst R, snd R))],
                    I[nat t := snd (fold upd (concat (map (row_cands e T m \<mu> \<sigma> excl_zone k)
                                       (range_py (i + 1) (int (length T) - m + 2 - k)))) (fst R, snd R))])"
    using Suc.hyps(2) Suc.prems(1) lt lR
    by (intro Suc.hyps(1)) (auto simp: nat_diff_distrib)
  then show ?case
    unfolding range_py_rec[OF lt] by (simp add: step R_def)
qed

lemma walk_ok_Cons:
  "walk_ok T m \<mu> \<sigma> excl_zone orders (j # js) \<longleftrightarrow>
     walk_ok T m \<mu> \<sigma> excl_zone orders js \<and> 0 \<le> j \<and> j < int (length orders)
       \<and> excl_zone + 1 \<le> orders ! nat j \<and> orders ! nat j \<le> int (length T) - m + 1"
  by (auto simp: walk_ok_def)

lemma walk_rows:
  assumes t: "0 \<le> t" "t < int (length P)" "length I = length P"
  shows "walk_ok T m \<mu> \<sigma> excl_zone orders js \<Longrightarrow>
         int (length p) = int (length T) - m + 1 \<Longrightarrow> length q = length p \<Longrightarrow>
         \<exists>QT'. efold (\<lambda>order_idx st.
                   ebind (getitem orders order_idx) (\<lambda>k.
                     efold (diagonal_step e T m \<mu> \<sigma> excl_zone t k)
                       (range_py 0 (int (length T) - m + 2 - k)) st))
                 js (QT, P[nat t := p], I[nat t := q]) =
               Inr (QT',
                    P[nat t := fst (fold upd (walk_cands e T m \<mu> \<sigma> excl_zone orders js) (p, q))],
                    I[nat t := snd (fold upd (walk_cands e T m \<mu> \<sigma> excl_zone orders js) (p, q))])"
proof (induction js arbitrary: QT p q)
  case Nil
  then show ?case by (simp add: walk_cands_def)
next
  case (Cons j js)
  define k where "k = orders ! nat j"
  have ok: "walk_ok T m \<mu> \<sigma> excl_zone orders js" "0 \<le> j" "j < int (length orders)"
    "excl_zone + 1 \<le> k" "k \<le> int (length T) - m + 1"
    using Cons.prems(1) unfolding walk_ok_Cons k_def by auto
  have base: "1 \<le> m" "0 \<le> excl_zone" "int (length \<mu>) = int (length T) - m + 1"
    "int (length \<sigma>) = int (length T) - m + 1"
    using Cons.prems(1) by (auto simp: walk_ok_def)
  define R where "R = fold upd (diag_cands e T m \<mu> \<sigma> excl_zone k) (p, q)"
  have k0: "0 \<le> int (length T) - m + 2 - k" using ok by simp
  obtain QT1 where d: "efold (diagonal_step e T m \<mu> \<sigma> excl_zone t k)
                 (range_py 0 (int (length T) - m + 2 - k)) (QT, P[nat t := p], I[nat t := q]) =
               Inr (QT1, P[nat t := fst R], I[nat t := snd R])"
    unfolding R_def diag_cands_def
    using diagonal_rows[OF base(1) ok(4,5) base(2,3,4) t order_refl k0 _ Cons.prems(2,3), of QT e]
    by auto
  have lR: "int (length (fst R)) = int (length T) - m + 1" "length (snd R) = length (fst R)"
    unfolding R_def using Cons.prems(2,3) by simp_all
  obtain QT' where rest: "efold (\<lambda>order_idx st.
                   ebind (getitem orders order_idx) (\<lambda>k.
                     efold (diagonal_step e T m \<mu> \<sigma> excl_zone t k)
                       (range_py 0 (int (length T) - m + 2 - k)) st))
                 js (QT1, P[nat t := fst R], I[nat t := snd R]) =
               Inr (QT',
                    P[nat t := fst (fold upd (walk_cands e T m \<mu> \<sigma> excl_zone orders js) (fst R, snd R))],
                    I[nat t := snd (fold upd (walk_cands e T m \<mu> \<sigma> excl_zone orders js) (fst R, snd R))])"
    using Cons.IH[OF ok(1) lR] by blast
  have get: "getitem orders j = Inr k" unfolding k_def using ok by simp
  have wc: "fold upd (walk_cands e T m \<mu> \<sigma> excl_zone orders (j # js)) (p, q) =
            fold upd (walk_cands e T m \<mu> \<sigma> excl_zone orders js) (fst R, snd R)"
    unfolding walk_cands_def R_def k_def by simp
  show ?case
    unfolding wc by (simp add: get d rest)
qed

lemma compute_diagonal_cands:
  assumes "walk_ok T m \<mu> \<sigma> excl_zone orders (range_py a b)"
    and "0 \<le> t" "t < int (length P)" "length I = length P"
    and "int (length (P ! nat t)) = int (length T) - m + 1" "length (I ! nat t) = length (P ! nat t)"
  shows "compute_diagonal e T m \<mu> \<sigma> orders a b excl_zone t P I =
         Inr (P[nat t := fst (fold upd (walk_cands e T m \<mu> \<sigma> excl_zone orders (range_py a b))
                                (P ! nat t, I ! nat t))],
              I[nat t := snd (fold upd (walk_cands e T m \<mu> \<sigma> excl_zone orders (range_py a b))
                                (P ! nat t, I ! nat t))])"
proof -
  have PI: "P = P[nat t := P ! nat t]" "I = I[nat t := I ! nat t]" by simp_all
  obtain QT' where w: "efold (\<lambda>order_idx st.
                   ebind (getitem orders order_idx) (\<lambda>k.
                     efold (diagonal_step e T m \<mu> \<sigma> excl_zone t k)
                       (range_py 0 (int (length T) - m + 2 - k)) st))
                 (range_py a b) (NaN, P[nat t := P ! nat t], I[nat t := I ! nat t]) =
               Inr (QT',
                    P[nat t := fst (fold upd (walk_cands e T m \<mu> \<sigma> excl_zone orders (range_py a b)) (P ! nat t, I ! nat t))],
                    I[nat t := snd (fold upd (walk_cands e T m \<mu> \<sigma> excl_zone orders (range_py a b)) (P ! nat t, I ! nat t))])"
    using walk_rows[OF assms(2,3,4,1,5,6), of e NaN] by blast
  show ?thesis
    unfolding compute_diagonal_def Let_def using w by simp
qed

section \<open>Candidate updates and the reduction\<close>


lemma fl_less_NaN [simp]: "\<not> fl_less a NaN"
  by (cases a) simp_all

lemma fl_less_PInf_left [simp]: "\<not> fl_less PInf b"
  by (cases b) auto

lemma fl_less_irrefl [simp]: "\<not> fl_less a a"
  by (cases a) auto

lemma fl_less_trans: "fl_less a b \<Longrightarrow> fl_less b c \<Longrightarrow> fl_less a c"
  by (cases a; cases b; cases c) auto

lemma fl_less_asym: "fl_less a b \<Longrightarrow> \<not> fl_less b a"
  by (cases a; cases b) auto

lemma fl_less_linear: "a \<noteq> NaN \<Longrightarrow> b \<noteq> NaN \<Longrightarrow> fl_less a b \<or> a = b \<or> fl_less b a"
  by (cases a; cases b) auto

lemma fl_less_not_NaN: "fl_less a b \<Longrightarrow> a \<noteq> NaN \<and> b \<noteq> NaN"
  by (cases a; cases b) auto

lemma no_NaN_nth: "no_NaN p \<Longrightarrow> i < length p \<Longrightarrow> p ! i \<noteq> NaN"
  by (metis no_NaN_def nth_mem)

lemma no_NaN_upd: "no_NaN (fst PI) \<Longrightarrow> no_NaN (fst (upd c PI))"
proof -
  assume n: "no_NaN (fst PI)"
  obtain a d b where c: "c = (a, d, b)" by (cases c) auto
  show ?thesis
  proof (cases "fl_less d (fst PI ! nat a)")
    case True
    then have "d \<noteq> NaN" using fl_less_not_NaN by blast
    then show ?thesis using n True unfolding c upd_def no_NaN_def
      by (auto dest: set_update_subset_insert[THEN subsetD])
  next
    case False
    then show ?thesis using n by (simp add: c upd_def)
  qed
qed

lemma no_NaN_fold_upd: "no_NaN (fst PI) \<Longrightarrow> no_NaN (fst (fold upd cs PI))"
proof (induction cs arbitrary: PI)
  case Nil
  then show ?case by simp
next
  case (Cons c cs)
  have "no_NaN (fst (upd c PI))" using Cons.prems by (rule no_NaN_upd)
  then show ?case using Cons.IH by simp
qed

lemma length_merge_rows [simp]:
  "length (fst (merge_rows X Y)) = length (fst X)" "length (snd (merge_rows X Y)) = length (fst X)"
  by (simp_all add: merge_rows_def)

lemma merge_rows_nth:
  assumes "i < length (fst X)"
  shows "fst (merge_rows X Y) ! i = (if fl_less (fst Y ! i) (fst X ! i) then fst Y ! i else fst X ! i)"
    and "snd (merge_rows X Y) ! i = (if fl_less (fst Y ! i) (fst X ! i) then snd Y ! i else snd X ! i)"
  using assms by (simp_all add: merge_rows_def fl_greater_def)

lemma merge_rows_update:
  assumes k: "k < length (fst X)"
    and lens: "length (snd X) = length (fst X)" "length (fst Y) = length (fst X)"
      "length (snd Y) = length (fst X)"
  shows "merge_rows X ((fst Y)[k := d], (snd Y)[k := b]) =
         (if fl_less d (fst X ! k)
          then ((fst (merge_rows X Y))[k := d], (snd (merge_rows X Y))[k := b])
          else ((fst (merge_rows X Y))[k := fst X ! k], (snd (merge_rows X Y))[k := snd X ! k]))"
proof -
  let ?Y' = "((fst Y)[k := d], (snd Y)[k := b])"
  have f: "fst (merge_rows X ?Y') ! i =
           (if fl_less d (fst X ! k) then (fst (merge_rows X Y))[k := d]
            else (fst (merge_rows X Y))[k := fst X ! k]) ! i" if "i < length (fst X)" for i
    using that k lens by (cases "i = k") (simp_all add: merge_rows_nth)
  have g: "snd (merge_rows X ?Y') ! i =
           (if fl_less d (fst X ! k) then (snd (merge_rows X Y))[k := b]
            else (snd (merge_rows X Y))[k := snd X ! k]) ! i" if "i < length (fst X)" for i
    using that k lens by (cases "i = k") (simp_all add: merge_rows_nth)
  have F: "fst (merge_rows X ?Y') =
           (if fl_less d (fst X ! k) then (fst (merge_rows X Y))[k := d]
            else (fst (merge_rows X Y))[k := fst X ! k])"
    by (rule nth_equalityI) (use f in auto)
  have G: "snd (merge_rows X ?Y') =
           (if fl_less d (fst X ! k) then (snd (merge_rows X Y))[k := b]
            else (snd (merge_rows X Y))[k := snd X ! k])"
    by (rule nth_equalityI) (use g in auto)
  show ?thesis using F G by (simp add: prod_eq_iff)
qed

lemma upd_merge_rows:
  assumes lens: "length (snd X) = length (fst X)" "length (fst Y) = length (fst X)"
      "length (snd Y) = length (fst X)"
    and nn: "no_NaN (fst X)" "no_NaN (fst Y)"
    and a: "0 \<le> fst c" "fst c < int (length (fst X))"
  shows "upd c (merge_rows X Y) = merge_rows X (upd c Y)"
proof -
  obtain a d b where c: "c = (a, d, b)" by (cases c) auto
  define k where "k = nat a"
  have k: "k < length (fst X)" using a unfolding c k_def by simp
  define x where "x = fst X ! k"
  define y where "y = fst Y ! k"
  have xy: "x \<noteq> NaN" "y \<noteq> NaN"
    unfolding x_def y_def using no_NaN_nth[OF nn(1) k] no_NaN_nth[OF nn(2), of k] k lens by simp_all
  have mk: "fst (merge_rows X Y) ! k = (if fl_less y x then y else x)"
    using merge_rows_nth(1)[OF k] by (simp add: x_def y_def)
  have L: "upd c (merge_rows X Y) =
           (if fl_less d (if fl_less y x then y else x)
            then ((fst (merge_rows X Y))[k := d], (snd (merge_rows X Y))[k := b])
            else merge_rows X Y)"
    unfolding c upd_def by (simp add: k_def[symmetric] mk)
  show ?thesis
  proof (cases "fl_less d y")
    case dy: True
    have Y': "upd c Y = ((fst Y)[k := d], (snd Y)[k := b])"
      unfolding c upd_def using dy by (simp add: k_def y_def)
    have R: "merge_rows X (upd c Y) =
         (if fl_less d x
          then ((fst (merge_rows X Y))[k := d], (snd (merge_rows X Y))[k := b])
          else ((fst (merge_rows X Y))[k := fst X ! k], (snd (merge_rows X Y))[k := snd X ! k]))"
      unfolding Y' x_def using merge_rows_update[OF k lens] .
    show ?thesis
    proof (cases "fl_less d x")
      case dx: True
      show ?thesis unfolding L R using dx dy by simp
    next
      case dx: False
      have xlty: "fl_less x y"
      proof -
        have "d \<noteq> NaN" using dy fl_less_not_NaN by blast
        then have "x = d \<or> fl_less x d" using dx fl_less_linear[of d x] xy by auto
        then show ?thesis using dy fl_less_trans by blast
      qed
      then have nyx: "\<not> fl_less y x" using fl_less_asym by blast
      have keep: "(fst (merge_rows X Y))[k := fst X ! k] = fst (merge_rows X Y)"
        "(snd (merge_rows X Y))[k := snd X ! k] = snd (merge_rows X Y)"
        using merge_rows_nth[OF k, of Y] nyx k
        by (simp_all add: x_def y_def list_update_same_conv)
      show ?thesis unfolding L R using dx nyx by (simp add: keep)
    qed
  next
    case dy: False
    have Y': "upd c Y = Y" unfolding c upd_def using dy by (simp add: k_def y_def)
    have "\<not> fl_less d (if fl_less y x then y else x)"
    proof (cases "fl_less y x")
      case True then show ?thesis using dy by simp
    next
      case False
      have "\<not> fl_less d x"
      proof
        assume dx: "fl_less d x"
        then have "d \<noteq> NaN" using fl_less_not_NaN by blast
        then have "y = d \<or> fl_less y d" using dy fl_less_linear[of d y] xy by auto
        then have "fl_less y x" using dx fl_less_trans by blast
        then show False using False by simp
      qed
      then show ?thesis using False by simp
    qed
    then show ?thesis unfolding L Y' by simp
  qed
qed


lemma row_cands_bounds:
  assumes "excl_zone + 1 \<le> k" "k \<le> int (length T) - m + 1" "0 \<le> excl_zone"
    "0 \<le> i" "i < int (length T) - m + 2 - k" "c \<in> set (row_cands e T m \<mu> \<sigma> excl_zone k i)"
  shows "0 \<le> fst c \<and> fst c < int (length T) - m + 1 \<and> excl_zone < \<bar>snd (snd c) - fst c\<bar>"
  using assms by (auto simp: row_cands_def split: if_splits)

lemma walk_cands_bounds:
  assumes ok: "walk_ok T m \<mu> \<sigma> excl_zone orders js"
    and c: "c \<in> set (walk_cands e T m \<mu> \<sigma> excl_zone orders js)"
  shows "0 \<le> fst c \<and> fst c < int (length T) - m + 1 \<and> excl_zone < \<bar>snd (snd c) - fst c\<bar>"
proof -
  obtain j where j: "j \<in> set js" "c \<in> set (diag_cands e T m \<mu> \<sigma> excl_zone (orders ! nat j))"
    using c unfolding walk_cands_def by auto
  define k where "k = orders ! nat j"
  have k: "excl_zone + 1 \<le> k" "k \<le> int (length T) - m + 1" "0 \<le> excl_zone"
    using ok j(1) unfolding walk_ok_def k_def list_all_iff by auto
  obtain i where i: "i \<in> set (range_py 0 (int (length T) - m + 2 - k))"
      "c \<in> set (row_cands e T m \<mu> \<sigma> excl_zone k i)"
    using j(2) unfolding diag_cands_def k_def by auto
  then have "0 \<le> i" "i < int (length T) - m + 2 - k" by auto
  then show ?thesis using row_cands_bounds[OF k _ _ i(2)] by simp
qed

lemma merge_rows_init:
  assumes "int (length (fst X)) = l" "length (snd X) = length (fst X)"
  shows "merge_rows X (init_rows l) = X"
proof -
  have "fst (merge_rows X (init_rows l)) = fst X"
    by (rule nth_equalityI) (use assms in \<open>auto simp: merge_rows_nth init_rows_def\<close>)
  moreover have "snd (merge_rows X (init_rows l)) = snd X"
    by (rule nth_equalityI) (use assms in \<open>auto simp: merge_rows_nth init_rows_def\<close>)
  ultimately show ?thesis by (simp add: prod_eq_iff)
qed

lemma no_NaN_init [simp]: "no_NaN (fst (init_rows l))"
  by (simp add: no_NaN_def init_rows_def)

lemma length_init_rows [simp]:
  "length (fst (init_rows l)) = nat l" "length (snd (init_rows l)) = nat l"
  by (simp_all add: init_rows_def)

lemma fold_upd_merge:
  assumes lens: "int (length (fst X)) = l" "length (snd X) = length (fst X)"
    and nn: "no_NaN (fst X)"
    and cs: "\<forall>c \<in> set cs. 0 \<le> fst c \<and> fst c < l"
  shows "fold upd cs X = merge_rows X (fold upd cs (init_rows l))"
  using cs
proof (induction cs rule: rev_induct)
  case Nil
  show ?case using merge_rows_init[OF lens] by simp
next
  case (snoc c cs)
  define Y where "Y = fold upd cs (init_rows l)"
  have IH: "fold upd cs X = merge_rows X Y" unfolding Y_def using snoc by simp
  have l0: "0 \<le> l" using lens by linarith
  have lY: "length (fst Y) = length (fst X)" "length (snd Y) = length (fst X)"
    unfolding Y_def using lens l0 by simp_all
  have nY: "no_NaN (fst Y)" unfolding Y_def by (rule no_NaN_fold_upd) simp
  have c: "0 \<le> fst c" "fst c < int (length (fst X))" using snoc.prems lens by auto
  have "fold upd (cs @ [c]) X = upd c (merge_rows X Y)" using IH by simp
  also have "\<dots> = merge_rows X (upd c Y)"
    using upd_merge_rows[OF lens(2) lY nn nY c] .
  finally show ?case unfolding Y_def by simp
qed

section \<open>The parallel walk and its reduction\<close>


lemma range_py_0_Suc: "range_py 0 (int (Suc t)) = range_py 0 (int t) @ [int t]"
  using range_py_snoc[of 0 "int (Suc t)"] by simp

lemma length_worker_rows [simp]:
  "0 \<le> int (length T) - m + 1 \<Longrightarrow>
   int (length (fst (worker_rows e T m \<mu> \<sigma> excl_zone orders r))) = int (length T) - m + 1"
  "length (snd (worker_rows e T m \<mu> \<sigma> excl_zone orders r)) =
   length (fst (worker_rows e T m \<mu> \<sigma> excl_zone orders r))"
  by (simp_all add: worker_rows_def)

lemma walk_loop:
  fixes rs :: "(int \<times> int) list" and e :: env and T \<mu> \<sigma> :: "fl list" and m excl_zone :: int
    and orders :: "int list"
  assumes N: "length rs = N"
    and ok: "\<forall>r \<in> set rs. walk_ok T m \<mu> \<sigma> excl_zone orders (range_py (fst r) (snd r))"
    and l: "0 \<le> int (length T) - m + 1"
  defines "W \<equiv> (\<lambda>t. worker_rows e T m \<mu> \<sigma> excl_zone orders (rs ! t))"
  defines "i0 \<equiv> init_rows (int (length T) - m + 1)"
  shows "t \<le> N \<Longrightarrow>
         efold (\<lambda>thread_idx PI.
                  ebind (getitem rs thread_idx) (\<lambda>r.
                    compute_diagonal e T m \<mu> \<sigma> orders (fst r) (snd r) excl_zone
                      thread_idx (fst PI) (snd PI)))
           (range_py 0 (int t)) (replicate N (fst i0), replicate N (snd i0)) =
         Inr (map (\<lambda>j. if j < t then fst (W j) else fst i0) [0..<N],
              map (\<lambda>j. if j < t then snd (W j) else snd i0) [0..<N])"
proof (induction t)
  case 0
  show ?case by (simp add: list_eq_iff_nth_eq)
next
  case (Suc t)
  let ?P = "map (\<lambda>j. if j < t then fst (W j) else fst i0) [0..<N]"
  let ?I = "map (\<lambda>j. if j < t then snd (W j) else snd i0) [0..<N]"
  have t: "t < N" using Suc.prems by simp
  have IH: "efold (\<lambda>thread_idx PI.
                  ebind (getitem rs thread_idx) (\<lambda>r.
                    compute_diagonal e T m \<mu> \<sigma> orders (fst r) (snd r) excl_zone
                      thread_idx (fst PI) (snd PI)))
           (range_py 0 (int t)) (replicate N (fst i0), replicate N (snd i0)) = Inr (?P, ?I)"
    using Suc by simp
  have get: "getitem rs (int t) = Inr (rs ! t)" using t N by simp
  have okt: "walk_ok T m \<mu> \<sigma> excl_zone orders (range_py (fst (rs ! t)) (snd (rs ! t)))"
    using ok t N by simp
  have rows: "?P ! nat (int t) = fst i0" "?I ! nat (int t) = snd i0" using t by simp_all
  have cd: "compute_diagonal e T m \<mu> \<sigma> orders (fst (rs ! t)) (snd (rs ! t)) excl_zone (int t) ?P ?I =
            Inr (?P[t := fst (W t)], ?I[t := snd (W t)])"
  proof -
    have "compute_diagonal e T m \<mu> \<sigma> orders (fst (rs ! t)) (snd (rs ! t)) excl_zone (int t) ?P ?I =
         Inr (?P[nat (int t) := fst (fold upd (walk_cands e T m \<mu> \<sigma> excl_zone orders
                                  (range_py (fst (rs ! t)) (snd (rs ! t))))
                                (?P ! nat (int t), ?I ! nat (int t)))],
              ?I[nat (int t) := snd (fold upd (walk_cands e T m \<mu> \<sigma> excl_zone orders
                                  (range_py (fst (rs ! t)) (snd (rs ! t))))
                                (?P ! nat (int t), ?I ! nat (int t)))])"
      by (rule compute_diagonal_cands[OF okt]) (use t l in \<open>simp_all add: i0_def\<close>)
    then show ?thesis unfolding rows by (simp add: W_def worker_rows_def i0_def)
  qed
  have P': "?P[t := fst (W t)] = map (\<lambda>j. if j < Suc t then fst (W j) else fst i0) [0..<N]"
    by (rule nth_equalityI) (use t in \<open>auto simp: nth_list_update less_Suc_eq\<close>)
  have I': "?I[t := snd (W t)] = map (\<lambda>j. if j < Suc t then snd (W j) else snd i0) [0..<N]"
    by (rule nth_equalityI) (use t in \<open>auto simp: nth_list_update less_Suc_eq\<close>)
  show ?case
    unfolding range_py_0_Suc efold_append IH
    by (simp add: get cd P' I' del: of_nat_Suc)
qed


lemma getitem2_other:
  assumes "t < length P" "t \<noteq> 0" "a < length (P ! t)"
  shows "getitem2 (P[0 := p]) (int t) (int a) = Inr (P ! t ! a)"
  using assms by (simp add: getitem2_def)

lemma getitem2_zero:
  assumes "0 < length P" "a < length p"
  shows "getitem2 (P[0 := p]) 0 (int a) = Inr (p ! a)"
  using getitem2_row[of 0 P "int a" p] assms by simp

lemma setitem2_zero:
  assumes "0 < length P" "a < length p"
  shows "setitem2 (P[0 := p]) 0 (int a) v = Inr (P[0 := p[a := v]])"
  using setitem2_row[of 0 P "int a" p v] assms by simp

lemma reduce_cells:
  assumes t: "0 < t" "t < length P" "length I = length P"
    and rows: "length (P ! 0) = L" "length (I ! 0) = L" "length (P ! t) = L" "length (I ! t) = L"
  shows "i \<le> L \<Longrightarrow>
         efold (reduce_step (int t)) (range_py 0 (int i)) (P, I) =
         Inr (P[0 := map (\<lambda>j. if j < i then fst (merge_rows (P ! 0, I ! 0) (P ! t, I ! t)) ! j
                                else P ! 0 ! j) [0..<L]],
              I[0 := map (\<lambda>j. if j < i then snd (merge_rows (P ! 0, I ! 0) (P ! t, I ! t)) ! j
                                else I ! 0 ! j) [0..<L]])"
proof (induction i)
  case 0
  have "map (\<lambda>j. P ! 0 ! j) [0..<L] = P ! 0" "map (\<lambda>j. I ! 0 ! j) [0..<L] = I ! 0"
    using rows by (simp_all add: map_nth[of "P ! 0", unfolded rows(1)] map_nth[of "I ! 0", unfolded rows(2)])
  then show ?case by simp
next
  case (Suc i)
  define M where "M = merge_rows (P ! 0, I ! 0) (P ! t, I ! t)"
  let ?pm = "map (\<lambda>j. if j < i then fst M ! j else P ! 0 ! j) [0..<L]"
  let ?qm = "map (\<lambda>j. if j < i then snd M ! j else I ! 0 ! j) [0..<L]"
  have i: "i < L" using Suc.prems by simp
  have IH: "efold (reduce_step (int t)) (range_py 0 (int i)) (P, I) = Inr (P[0 := ?pm], I[0 := ?qm])"
    using Suc unfolding M_def by simp
  have P0: "0 < length P" "0 < length I" using t by linarith+
  have g0: "getitem2 (P[0 := ?pm]) 0 (int i) = Inr (P ! 0 ! i)"
    using getitem2_zero[OF P0(1), of i ?pm] i by simp
  have gt: "getitem2 (P[0 := ?pm]) (int t) (int i) = Inr (P ! t ! i)"
    using getitem2_other[of t P i ?pm] t rows i by simp
  have gi: "getitem2 (I[0 := ?qm]) (int t) (int i) = Inr (I ! t ! i)"
    using getitem2_other[of t I i ?qm] t rows i by simp
  have sp: "setitem2 (P[0 := ?pm]) 0 (int i) v = Inr (P[0 := ?pm[i := v]])" for v
    using setitem2_zero[OF P0(1), of i ?pm v] i by simp
  have si: "setitem2 (I[0 := ?qm]) 0 (int i) v = Inr (I[0 := ?qm[i := v]])" for v
    using setitem2_zero[OF P0(2), of i ?qm v] i by simp
  have Mi: "fst M ! i = (if fl_greater (P ! 0 ! i) (P ! t ! i) then P ! t ! i else P ! 0 ! i)"
           "snd M ! i = (if fl_greater (P ! 0 ! i) (P ! t ! i) then I ! t ! i else I ! 0 ! i)"
    unfolding M_def using i rows by (simp_all add: merge_rows_def)
  have pm': "(if fl_greater (P ! 0 ! i) (P ! t ! i) then ?pm[i := P ! t ! i] else ?pm) =
             map (\<lambda>j. if j < Suc i then fst M ! j else P ! 0 ! j) [0..<L]"
  proof (rule nth_equalityI)
    show "length (if fl_greater (P ! 0 ! i) (P ! t ! i) then ?pm[i := P ! t ! i] else ?pm) =
          length (map (\<lambda>j. if j < Suc i then fst M ! j else P ! 0 ! j) [0..<L])" by simp
  next
    fix j assume "j < length (if fl_greater (P ! 0 ! i) (P ! t ! i) then ?pm[i := P ! t ! i] else ?pm)"
    then have j: "j < L" by (simp split: if_splits)
    show "(if fl_greater (P ! 0 ! i) (P ! t ! i) then ?pm[i := P ! t ! i] else ?pm) ! j =
          map (\<lambda>j. if j < Suc i then fst M ! j else P ! 0 ! j) [0..<L] ! j"
      using j i Mi by (cases "j = i") (auto simp: nth_list_update)
  qed
  have qm': "(if fl_greater (P ! 0 ! i) (P ! t ! i) then ?qm[i := I ! t ! i] else ?qm) =
             map (\<lambda>j. if j < Suc i then snd M ! j else I ! 0 ! j) [0..<L]"
  proof (rule nth_equalityI)
    show "length (if fl_greater (P ! 0 ! i) (P ! t ! i) then ?qm[i := I ! t ! i] else ?qm) =
          length (map (\<lambda>j. if j < Suc i then snd M ! j else I ! 0 ! j) [0..<L])" by simp
  next
    fix j assume "j < length (if fl_greater (P ! 0 ! i) (P ! t ! i) then ?qm[i := I ! t ! i] else ?qm)"
    then have j: "j < L" by (simp split: if_splits)
    show "(if fl_greater (P ! 0 ! i) (P ! t ! i) then ?qm[i := I ! t ! i] else ?qm) ! j =
          map (\<lambda>j. if j < Suc i then snd M ! j else I ! 0 ! j) [0..<L] ! j"
      using j i Mi by (cases "j = i") (auto simp: nth_list_update)
  qed
  have step: "reduce_step (int t) (int i) (P[0 := ?pm], I[0 := ?qm]) =
        Inr (P[0 := map (\<lambda>j. if j < Suc i then fst M ! j else P ! 0 ! j) [0..<L]],
             I[0 := map (\<lambda>j. if j < Suc i then snd M ! j else I ! 0 ! j) [0..<L]])"
    unfolding reduce_step_def prod.case g0 gt ebind_Inr pm'[symmetric] qm'[symmetric]
    by (simp add: sp gi si)
  show ?case
    unfolding range_py_0_Suc efold_append IH M_def[symmetric]
    by (simp add: step del: of_nat_Suc)
qed

lemma reduce_thread:
  assumes t: "0 < t" "t < length P" "length I = length P"
    and rows: "length (P ! 0) = L" "length (I ! 0) = L" "length (P ! t) = L" "length (I ! t) = L"
  shows "efold (reduce_step (int t)) (range_py 0 (int L)) (P, I) =
         Inr (P[0 := fst (merge_rows (P ! 0, I ! 0) (P ! t, I ! t))],
              I[0 := snd (merge_rows (P ! 0, I ! 0) (P ! t, I ! t))])"
proof -
  define M where "M = merge_rows (P ! 0, I ! 0) (P ! t, I ! t)"
  have lM: "length (fst M) = L" "length (snd M) = L" unfolding M_def using rows by simp_all
  have "map (\<lambda>j. if j < L then fst M ! j else P ! 0 ! j) [0..<L] = fst M"
    by (rule nth_equalityI) (use lM in auto)
  moreover have "map (\<lambda>j. if j < L then snd M ! j else I ! 0 ! j) [0..<L] = snd M"
    by (rule nth_equalityI) (use lM in auto)
  ultimately show ?thesis
    using reduce_cells[OF assms order_refl] unfolding M_def by simp
qed


lemma length_foldl_merge_rows:
  "length (snd X) = length (fst X) \<Longrightarrow>
   length (fst (foldl merge_rows X Ys)) = length (fst X) \<and>
   length (snd (foldl merge_rows X Ys)) = length (fst X)"
  by (induction Ys arbitrary: X) auto

lemma range_py_1_Suc: "range_py 1 (int (Suc (Suc t))) = range_py 1 (int (Suc t)) @ [int (Suc t)]"
  using range_py_snoc[of 1 "int (Suc (Suc t))"] by simp

lemma reduce_loop:
  assumes len: "length I = length P"
    and rows: "\<forall>j<length P. length (P ! j) = L \<and> length (I ! j) = L"
  shows "Suc t \<le> length P \<Longrightarrow>
         efold (\<lambda>thread_idx. efold (reduce_step thread_idx) (range_py 0 (int L)))
           (range_py 1 (int (Suc t))) (P, I) =
         Inr (P[0 := fst (foldl merge_rows (P ! 0, I ! 0) (map (\<lambda>j. (P ! j, I ! j)) [1..<Suc t]))],
              I[0 := snd (foldl merge_rows (P ! 0, I ! 0) (map (\<lambda>j. (P ! j, I ! j)) [1..<Suc t]))])"
proof (induction t)
  case 0
  then show ?case by simp
next
  case (Suc t)
  define F where "F = foldl merge_rows (P ! 0, I ! 0) (map (\<lambda>j. (P ! j, I ! j)) [1..<Suc t])"
  have IH: "efold (\<lambda>thread_idx. efold (reduce_step thread_idx) (range_py 0 (int L)))
           (range_py 1 (int (Suc t))) (P, I) = Inr (P[0 := fst F], I[0 := snd F])"
    unfolding F_def using Suc by simp
  have t: "Suc t < length P" using Suc.prems by simp
  have "0 < length P" using t by linarith
  then have r0: "length (P ! 0) = L" "length (I ! 0) = L" using rows by blast+
  have lF: "length (fst F) = L" "length (snd F) = L"
    unfolding F_def using length_foldl_merge_rows[of "(P ! 0, I ! 0)"] r0 by simp_all
  have P0: "0 < length P" "0 < length I" using t len by linarith+
  have z: "P[0 := fst F] ! 0 = fst F" "I[0 := snd F] ! 0 = snd F"
    "P[0 := fst F] ! Suc t = P ! Suc t" "I[0 := snd F] ! Suc t = I ! Suc t"
    using P0 by simp_all
  have rt: "length (P ! Suc t) = L" "length (I ! Suc t) = L" using rows t by blast+
  have th: "efold (reduce_step (int (Suc t))) (range_py 0 (int L)) (P[0 := fst F], I[0 := snd F]) =
         Inr (P[0 := fst (merge_rows (fst F, snd F) (P ! Suc t, I ! Suc t))],
              I[0 := snd (merge_rows (fst F, snd F) (P ! Suc t, I ! Suc t))])"
    using reduce_thread[of "Suc t" "P[0 := fst F]" "I[0 := snd F]" L] t len lF rt
    unfolding z by simp
  have F': "foldl merge_rows (P ! 0, I ! 0) (map (\<lambda>j. (P ! j, I ! j)) [1..<Suc (Suc t)]) =
            merge_rows (fst F, snd F) (P ! Suc t, I ! Suc t)"
    unfolding F_def by simp
  show ?case
    unfolding range_py_1_Suc efold_append IH F' using th by (simp del: of_nat_Suc upt_Suc)
qed

lemma scrimp_inner_rows:
  assumes N: "int (length rs) = NUMBA_NUM_THREADS e" "1 \<le> NUMBA_NUM_THREADS e"
    and ok: "\<forall>r \<in> set rs. walk_ok T m \<mu> \<sigma> excl_zone orders (range_py (fst r) (snd r))"
  shows "scrimp_inner e T m \<mu> \<sigma> orders rs excl_zone percentage =
         Inr (map fl_sqrt (fst (foldl merge_rows (worker_rows e T m \<mu> \<sigma> excl_zone orders (hd rs))
                                 (map (worker_rows e T m \<mu> \<sigma> excl_zone orders) (tl rs)))),
              snd (foldl merge_rows (worker_rows e T m \<mu> \<sigma> excl_zone orders (hd rs))
                     (map (worker_rows e T m \<mu> \<sigma> excl_zone orders) (tl rs))))"
proof -
  define Nn where "Nn = length rs"
  define l where "l = int (length T) - m + 1"
  define W where "W = (\<lambda>t. worker_rows e T m \<mu> \<sigma> excl_zone orders (rs ! t))"
  have Nn: "NUMBA_NUM_THREADS e = int Nn" "0 < Nn" using N unfolding Nn_def by auto
  then have ne: "rs \<noteq> []" unfolding Nn_def by auto
  have "walk_ok T m \<mu> \<sigma> excl_zone orders (range_py (fst (hd rs)) (snd (hd rs)))"
    using ok ne by simp
  then have l1: "1 \<le> l" unfolding l_def walk_ok_def by simp
  then have l0: "0 \<le> int (length T) - m + 1" unfolding l_def by simp
  define P1 where "P1 = map (\<lambda>j. fst (W j)) [0..<Nn]"
  define I1 where "I1 = map (\<lambda>j. snd (W j)) [0..<Nn]"
  have init: "replicate Nn (replicate (nat l) PInf) = replicate Nn (fst (init_rows l))"
     "replicate Nn (replicate (nat l) (- 1 :: int)) = replicate Nn (snd (init_rows l))"
    by (simp_all add: init_rows_def)
  have loop1: "efold (\<lambda>thread_idx PI.
                  ebind (getitem rs thread_idx) (\<lambda>r.
                    compute_diagonal e T m \<mu> \<sigma> orders (fst r) (snd r) excl_zone
                      thread_idx (fst PI) (snd PI)))
           (range_py 0 (int Nn)) (replicate Nn (fst (init_rows l)), replicate Nn (snd (init_rows l))) =
         Inr (P1, I1)"
    using walk_loop[OF Nn_def[symmetric] ok l0 order_refl, of e]
    unfolding P1_def I1_def W_def l_def by simp
  have rows: "\<forall>j<length P1. length (P1 ! j) = nat l \<and> length (I1 ! j) = nat l"
  proof (intro allI impI)
    fix j assume "j < length P1"
    then have j: "j < Nn" unfolding P1_def by simp
    have "int (length (fst (W j))) = l" "length (snd (W j)) = length (fst (W j))"
      unfolding W_def l_def using l0 by simp_all
    then show "length (P1 ! j) = nat l \<and> length (I1 ! j) = nat l"
      unfolding P1_def I1_def using j by simp
  qed
  obtain t where t: "Nn = Suc t" using Nn(2) by (cases Nn) auto
  define F where "F = foldl merge_rows (P1 ! 0, I1 ! 0) (map (\<lambda>j. (P1 ! j, I1 ! j)) [1..<Nn])"
  have loop2: "efold (\<lambda>thread_idx. efold (reduce_step thread_idx) (range_py 0 l))
           (range_py 1 (int Nn)) (P1, I1) = Inr (P1[0 := fst F], I1[0 := snd F])"
  proof -
    have "int (nat l) = l" using l1 by simp
    then show ?thesis
      using reduce_loop[of I1 P1 "nat l" t] rows unfolding F_def t P1_def I1_def by simp
  qed
  have hd_tl: "(P1 ! 0, I1 ! 0) = worker_rows e T m \<mu> \<sigma> excl_zone orders (hd rs)"
    unfolding P1_def I1_def W_def using Nn(2) ne by (simp add: hd_conv_nth)
  have "map (\<lambda>j. (P1 ! j, I1 ! j)) [1..<Nn] = map (worker_rows e T m \<mu> \<sigma> excl_zone orders) (tl rs)"
  proof (rule nth_equalityI)
    show "length (map (\<lambda>j. (P1 ! j, I1 ! j)) [1..<Nn]) =
          length (map (worker_rows e T m \<mu> \<sigma> excl_zone orders) (tl rs))"
      unfolding Nn_def by simp
  next
    fix j assume "j < length (map (\<lambda>j. (P1 ! j, I1 ! j)) [1..<Nn])"
    then have j: "Suc j < Nn" by simp
    then have "[1..<Nn] ! j = Suc j" by simp
    moreover have "P1 ! Suc j = fst (W (Suc j))" "I1 ! Suc j = snd (W (Suc j))"
      unfolding P1_def I1_def using j by simp_all
    ultimately show "map (\<lambda>j. (P1 ! j, I1 ! j)) [1..<Nn] ! j =
               map (worker_rows e T m \<mu> \<sigma> excl_zone orders) (tl rs) ! j"
      using j unfolding W_def Nn_def by (simp add: nth_tl)
  qed
  then have F_eq: "F = foldl merge_rows (worker_rows e T m \<mu> \<sigma> excl_zone orders (hd rs))
                     (map (worker_rows e T m \<mu> \<sigma> excl_zone orders) (tl rs))"
    unfolding F_def hd_tl by simp
  have fin: "getitem (P1[0 := fst F]) 0 = Inr (fst F)" "getitem (I1[0 := snd F]) 0 = Inr (snd F)"
    using Nn(2) unfolding P1_def I1_def by simp_all
  have l': "\<not> l < 0" "\<not> int Nn < 0" using l1 by simp_all
  show ?thesis
    unfolding scrimp_inner_def Let_def Nn(1) l_def[symmetric] F_eq[symmetric]
    using l' by (simp add: init loop1 loop2 fin)
qed


lemma walk_cands_append:
  "walk_cands e T m \<mu> \<sigma> excl_zone orders (js @ js') =
   walk_cands e T m \<mu> \<sigma> excl_zone orders js @ walk_cands e T m \<mu> \<sigma> excl_zone orders js'"
  by (simp add: walk_cands_def)

lemma walk_ok_append:
  "walk_ok T m \<mu> \<sigma> excl_zone orders (js @ js') \<longleftrightarrow>
   walk_ok T m \<mu> \<sigma> excl_zone orders js \<and> walk_ok T m \<mu> \<sigma> excl_zone orders js'"
  by (auto simp: walk_ok_def)

lemma walk_ok_concat:
  "walk_ok T m \<mu> \<sigma> excl_zone orders (concat jss) \<Longrightarrow> js \<in> set jss \<Longrightarrow>
   walk_ok T m \<mu> \<sigma> excl_zone orders js"
  by (induction jss) (auto simp: walk_ok_append)

lemma worker_rows_facts:
  assumes "walk_ok T m \<mu> \<sigma> excl_zone orders js"
  shows "int (length (fst (fold upd (walk_cands e T m \<mu> \<sigma> excl_zone orders js)
                 (init_rows (int (length T) - m + 1))))) = int (length T) - m + 1"
    and "no_NaN (fst (fold upd (walk_cands e T m \<mu> \<sigma> excl_zone orders js)
                 (init_rows (int (length T) - m + 1))))"
proof -
  have "1 \<le> int (length T) - m + 1" using assms unfolding walk_ok_def by simp
  then show "int (length (fst (fold upd (walk_cands e T m \<mu> \<sigma> excl_zone orders js)
                 (init_rows (int (length T) - m + 1))))) = int (length T) - m + 1" by simp
  show "no_NaN (fst (fold upd (walk_cands e T m \<mu> \<sigma> excl_zone orders js)
                 (init_rows (int (length T) - m + 1))))"
    by (rule no_NaN_fold_upd) simp
qed

lemma foldl_merge_worker_rows:
  assumes "walk_ok T m \<mu> \<sigma> excl_zone orders (concat (map (\<lambda>r. range_py (fst r) (snd r)) (r0 # rest)))"
  shows "foldl merge_rows (worker_rows e T m \<mu> \<sigma> excl_zone orders r0)
           (map (worker_rows e T m \<mu> \<sigma> excl_zone orders) rest) =
         fold upd (walk_cands e T m \<mu> \<sigma> excl_zone orders
                     (concat (map (\<lambda>r. range_py (fst r) (snd r)) (r0 # rest))))
           (init_rows (int (length T) - m + 1))"
  using assms
proof (induction rest rule: rev_induct)
  case Nil
  show ?case by (simp add: worker_rows_def)
next
  case (snoc r rest)
  define l where "l = int (length T) - m + 1"
  define js where "js = concat (map (\<lambda>r. range_py (fst r) (snd r)) (r0 # rest))"
  define X where "X = fold upd (walk_cands e T m \<mu> \<sigma> excl_zone orders js) (init_rows l)"
  have split: "concat (map (\<lambda>r. range_py (fst r) (snd r)) (r0 # rest @ [r])) = js @ range_py (fst r) (snd r)"
    unfolding js_def by simp
  have ok: "walk_ok T m \<mu> \<sigma> excl_zone orders js"
    "walk_ok T m \<mu> \<sigma> excl_zone orders (range_py (fst r) (snd r))"
    using snoc.prems unfolding split walk_ok_append by simp_all
  have IH: "foldl merge_rows (worker_rows e T m \<mu> \<sigma> excl_zone orders r0)
           (map (worker_rows e T m \<mu> \<sigma> excl_zone orders) rest) = X"
    unfolding X_def l_def js_def using snoc.IH ok(1) unfolding js_def by simp
  have lX: "int (length (fst X)) = l" "length (snd X) = length (fst X)" and nX: "no_NaN (fst X)"
    unfolding X_def l_def using worker_rows_facts[OF ok(1), of e] by simp_all
  have cs: "\<forall>c \<in> set (walk_cands e T m \<mu> \<sigma> excl_zone orders (range_py (fst r) (snd r))).
              0 \<le> fst c \<and> fst c < l"
    unfolding l_def using walk_cands_bounds[OF ok(2)] by blast
  have "foldl merge_rows (worker_rows e T m \<mu> \<sigma> excl_zone orders r0)
           (map (worker_rows e T m \<mu> \<sigma> excl_zone orders) (rest @ [r])) =
        merge_rows X (worker_rows e T m \<mu> \<sigma> excl_zone orders r)"
    using IH by simp
  also have "\<dots> = fold upd (walk_cands e T m \<mu> \<sigma> excl_zone orders (range_py (fst r) (snd r))) X"
    unfolding worker_rows_def l_def[symmetric] using fold_upd_merge[OF lX nX cs] by simp
  also have "\<dots> = fold upd (walk_cands e T m \<mu> \<sigma> excl_zone orders (js @ range_py (fst r) (snd r)))
                     (init_rows l)"
    unfolding X_def walk_cands_append by simp
  finally show ?case unfolding split l_def .
qed

lemma worker_rows_threads [simp]:
  "worker_rows (e\<lparr>NUMBA_NUM_THREADS := k\<rparr>) T m \<mu> \<sigma> excl_zone orders r =
   worker_rows e T m \<mu> \<sigma> excl_zone orders r"
proof -
  have "row_cands (e\<lparr>NUMBA_NUM_THREADS := k\<rparr>) T m \<mu> \<sigma> excl_zone k' =
        row_cands e T m \<mu> \<sigma> excl_zone k'" for k'
    by (rule ext) (simp add: row_cands_def D_at_def)
  then show ?thesis by (simp add: worker_rows_def walk_cands_def diag_cands_def)
qed

lemma scrimp_inner_partition:
  assumes ok: "walk_ok T m \<mu> \<sigma> excl_zone orders js"
    and part: "concat (map (\<lambda>r. range_py (fst r) (snd r)) orders_ranges) = js"
    and N: "int (length orders_ranges) = NUMBA_NUM_THREADS e" "1 \<le> NUMBA_NUM_THREADS e"
  shows "scrimp_inner e T m \<mu> \<sigma> orders orders_ranges excl_zone percentage =
         Inr (map fl_sqrt (fst (fold upd (walk_cands e T m \<mu> \<sigma> excl_zone orders js)
                                  (init_rows (int (length T) - m + 1)))),
              snd (fold upd (walk_cands e T m \<mu> \<sigma> excl_zone orders js)
                     (init_rows (int (length T) - m + 1))))"
proof -
  have ne: "orders_ranges \<noteq> []" using N by auto
  then have ht: "orders_ranges = hd orders_ranges # tl orders_ranges" by simp
  have each: "\<forall>r \<in> set orders_ranges. walk_ok T m \<mu> \<sigma> excl_zone orders (range_py (fst r) (snd r))"
  proof
    fix r assume "r \<in> set orders_ranges"
    then have "range_py (fst r) (snd r) \<in> set (map (\<lambda>r. range_py (fst r) (snd r)) orders_ranges)"
      by simp
    then show "walk_ok T m \<mu> \<sigma> excl_zone orders (range_py (fst r) (snd r))"
      using walk_ok_concat ok part by blast
  qed
  have ok': "walk_ok T m \<mu> \<sigma> excl_zone orders
               (concat (map (\<lambda>r. range_py (fst r) (snd r)) (hd orders_ranges # tl orders_ranges)))"
    using ok part ht by simp
  show ?thesis
    unfolding scrimp_inner_rows[OF N each] foldl_merge_worker_rows[OF ok']
    using part ht by simp
qed

section \<open>Evaluating the walk on concrete inputs\<close>

lemmas eval_walk = compute_diagonal_def diagonal_step_def scrimp_inner_def reduce_step_def
  example_env_def range_py_def getitem_def getitem2_def setitem2_def setitem_def getslice_def
  dot_def improve_def Let_def zn_squared_distance_def fl_sub_def fl_greater_def



section \<open>Evaluating PreSCRIMP on a constant series\<close>

text \<open>
  A series of 10 equal points with \<open>m = 8\<close>: three windows, all within the exclusion
  zone (2) of each other, so that no row has a match.
\<close>


lemma ez8: "excl_zone_of 8 = 2" by (simp add: excl_zone_of_def)

lemma fill_all: "length D = 3 \<Longrightarrow> py_fill D 0 3 PInf = [PInf, PInf, PInf]"
  by (simp add: py_fill_def py_bound_def list_eq_iff_nth_eq eval_nat_numeral less_Suc_eq)

lemma am: "argmin [PInf, PInf, PInf] = Inr 0"
  by (simp add: argmin_def argmin_step_def eval_nat_numeral)

lemma len_mass: "length (map fl_square (mass (example_env 1 [3]) Q T [Flt 1, Flt 1, Flt 1] \<sigma>)) = 3"
  by (simp add: example_env_def distance_profile_def)

lemma scan0: "prescrimp_scan (example_env 1 [3]) T 8 [Flt 1, Flt 1, Flt 1] \<sigma> 3 2 0
    ([PInf, PInf, PInf], [- 1, - 1, - 1]) = Inr ([PInf, PInf, PInf], [- 1, - 1, - 1])"
proof -
  have z: "max 0 (0 - 2) = (0::int)" "min 3 (0 + 2) + 1 = (3::int)" by simp_all
  show ?thesis
    unfolding prescrimp_scan_def prod.case Let_def z fill_all[OF len_mass] am ebind_Inr
    by (simp add: py_set_def py_get_def improve1_def range_py_def eval_nat_numeral)
qed


lemma r10: "replicate 10 (Flt 1) = [Flt 1, Flt 1, Flt 1, Flt 1, Flt 1, Flt 1, Flt 1, Flt 1, Flt 1, Flt 1]"
  by (simp add: eval_nat_numeral)

lemma seed0: "seed_QT 8 PInf (Flt 0) (Flt 0) (Flt 1) (Flt 1) = NaN"
  by (simp add: seed_QT_def fl_sub_def)

lemma fwd0: "forward_step (example_env 1 [3]) (replicate 10 (Flt 1)) 8 [Flt 1, Flt 1, Flt 1] [Flt 0, Flt 0, Flt 0]
     0 (- 1) 1 (NaN, [PInf, PInf, PInf], [- 1, - 1, - 1]) = Inr (NaN, [Flt 0, Flt 0, PInf], [1, 0, - 1])"
  unfolding forward_step_def prod.case r10
  by (simp add: py_get_def py_set_def improve1_def example_env_def zn_squared_distance_def fl_sub_def Let_def)

lemma ext0: "prescrimp_extend (example_env 1 [3]) (replicate 10 (Flt 1)) 8 [Flt 1, Flt 1, Flt 1] [Flt 0, Flt 0, Flt 0]
     2 3 0 ([PInf, PInf, PInf], [- 1, - 1, - 1]) = Inr ([Flt 0, Flt 0, PInf], [1, 0, - 1])"
proof -
  have g: "py_get [- 1, - 1, - 1 :: int] 0 = Inr (- 1)" "py_get [PInf, PInf, PInf] 0 = Inr PInf"
    "py_get [Flt 0, Flt 0, Flt 0] 0 = Inr (Flt 0)" "py_get [Flt 0, Flt 0, Flt 0] (- 1) = Inr (Flt 0)"
    "py_get [Flt 1, Flt 1, Flt 1] 0 = Inr (Flt 1)" "py_get [Flt 1, Flt 1, Flt 1] (- 1) = Inr (Flt 1)"
    by (simp_all add: py_get_def)
  have r: "range_py 1 (min 2 (3 - max 0 (- 1))) = [1]" "range_py 1 (min 2 (min (0 + 1) (- 1 + 1))) = []"
    by (simp_all add: range_py_def)
  show ?thesis
    unfolding prescrimp_extend_def prod.case g ebind_Inr Let_def seed0 r efold.simps fwd0
    by simp
qed

lemma scan2: "prescrimp_scan (example_env 1 [3]) T 8 [Flt 1, Flt 1, Flt 1] \<sigma> 3 2 2
    ([Flt 0, Flt 0, PInf], [1, 0, - 1]) = Inr ([Flt 0, Flt 0, PInf], [1, 0, - 1])"
proof -
  have z: "max 0 (2 - 2) = (0::int)" "min 3 (2 + 2) + 1 = (4::int)" by simp_all
  have f: "py_fill D 0 4 PInf = py_fill D 0 3 PInf" if "length D = 3" for D :: "fl list"
    using that by (simp add: py_fill_def py_bound_def)
  show ?thesis
    unfolding prescrimp_scan_def prod.case Let_def z f[OF len_mass] fill_all[OF len_mass] am ebind_Inr
    by (simp add: py_set_def py_get_def improve1_def range_py_def eval_nat_numeral)
qed

lemma ext2: "prescrimp_extend (example_env 1 [3]) (replicate 10 (Flt 1)) 8 [Flt 1, Flt 1, Flt 1] [Flt 0, Flt 0, Flt 0]
     2 3 2 ([Flt 0, Flt 0, PInf], [1, 0, - 1]) = Inr ([Flt 0, Flt 0, PInf], [1, 0, - 1])"
proof -
  have g: "py_get [1, 0, - 1 :: int] 2 = Inr (- 1)" "py_get [Flt 0, Flt 0, PInf] 2 = Inr PInf"
    "py_get [Flt 0, Flt 0, Flt 0] 2 = Inr (Flt 0)" "py_get [Flt 0, Flt 0, Flt 0] (- 1) = Inr (Flt 0)"
    "py_get [Flt 1, Flt 1, Flt 1] 2 = Inr (Flt 1)" "py_get [Flt 1, Flt 1, Flt 1] (- 1) = Inr (Flt 1)"
    by (simp_all add: py_get_def)
  have r: "range_py 1 (min 2 (3 - max 2 (- 1))) = []" "range_py 1 (min 2 (min (2 + 1) (- 1 + 1))) = []"
    by (simp_all add: range_py_def)
  show ?thesis
    unfolding prescrimp_extend_def prod.case g ebind_Inr Let_def r efold.simps
    by simp
qed

lemma pre10: "prescrimp (example_env 1 [3]) (replicate 10 (Flt 1)) 8 [Flt 1, Flt 1, Flt 1] [Flt 0, Flt 0, Flt 0] (Some 2)
   = Inr ([Flt 0, Flt 0, PInf], [1, 0, - 1])"
proof -
  have rows: "range3 0 3 2 = Inr [0, 2]" by (simp add: range3_def eval_nat_numeral)
  have p: "permutation_rows (example_env 1 [3]) [0, 2] = [0, 2]" by (simp add: example_env_def)
  have i: "replicate (nat 3) PInf = [PInf, PInf, PInf]" "replicate (nat 3) (- 1 :: int) = [- 1, - 1, - 1]"
    by (simp_all add: eval_nat_numeral)
  have l: "int (length (replicate 10 (Flt 1))) - 8 + 1 = 3" by simp
  show ?thesis
    unfolding prescrimp_def Let_def l ez8 option.case i
    by (simp add: rows p scan0 ext0 scan2 ext2)
qed


lemma ms10: "sliding_mean_std (replicate 10 (Flt 1)) 8 = ([Flt 1, Flt 1, Flt 1], [Flt 0, Flt 0, Flt 0])"
  unfolding r10
  by (simp add: sliding_mean_std_def windows_def window_mean_def window_std_def fl_square_def fl_sub_def eval_nat_numeral)

lemma merge10: "efold (merge_step [Flt 0, Flt 0, PInf] [1, 0, - 1]) (range_py 0 3)
     [(PInf, - 1), (PInf, - 1), (PInf, - 1)] = Inr [(Flt 0, 1), (Flt 0, 0), (PInf, - 1)]"
  by (simp add: range_py_def eval_nat_numeral merge_step_def py_get_def py_set_def fl_greater_def)

lemma start10: "scrimp_start (example_env 1 [3]) [] (replicate 10 (Flt 1)) 8 1 True None =
   Inr ([[(Flt 0, 1), (Flt 0, 0), (PInf, - 1)]], g10)"
proof -
  have t1: "map (\<lambda>x. if x = PInf \<or> x = NInf then NaN else x) (replicate 10 (Flt 1)) = replicate 10 (Flt 1)"
    "map (\<lambda>x. if x = NaN then Flt 0 else x) (replicate 10 (Flt 1)) = replicate 10 (Flt 1)"
    by simp_all
  have c: "check_window_size (example_env 1 [3]) 8" "compute_mean_std (example_env 1 [3]) = sliding_mean_std"
    "permutation_orders (example_env 1 [3]) xs = [3]" "NUMBA_NUM_THREADS (example_env 1 [3]) = 1" for xs
    by (simp_all add: example_env_def)
  have l: "int (length (replicate 10 (Flt 1))) - 8 + 1 = 3" by simp
  have o: "replicate (nat 3) (PInf, - 1 :: int) = [(PInf, - 1), (PInf, - 1), (PInf, - 1)]"
    by (simp add: eval_nat_numeral)
  show ?thesis
    unfolding scrimp_start_def Let_def t1 l ez8 c(2-) ms10 fst_conv snd_conv option.case o pre10 ebind_Inr
    by (simp add: c(1) merge10 g10_def)
qed

lemma ranges10: "get_orders_ranges 1 8 10 [3] 0 1 = Inr [(0, 1)]"
  by (simp add: get_orders_ranges_def get_max_order_idx_def range_py_def
        getitem_def setitem_def orders_ranges_step_def Let_def)

lemma inner10: "scrimp_inner (example_env 1 [3]) (replicate 10 (Flt 1)) 8 [Flt 1, Flt 1, Flt 1] [Flt 0, Flt 0, Flt 0]
   [3] [(0, 1)] 2 1 = Inr ([PInf, PInf, PInf], [- 1, - 1, - 1])"
  unfolding r10 by (simp add: eval_walk eval_nat_numeral)

lemma merge10': "efold (merge_step [PInf, PInf, PInf] [- 1, - 1, - 1]) (range_py 0 3)
     [(Flt 0, 1), (Flt 0, 0), (PInf, - 1)] = Inr [(Flt 0, 1), (Flt 0, 0), (PInf, - 1)]"
  by (simp add: range_py_def eval_nat_numeral merge_step_def py_get_def py_set_def fl_greater_def)

lemma next10: "scrimp_next (example_env 1 [3]) ([[(Flt 0, 1), (Flt 0, 0), (PInf, - 1)]], g10) =
   Inr (Some 0, [[(Flt 0, 1), (Flt 0, 0), (PInf, - 1)]], g10\<lparr>g_start := 1, g_round := 1\<rparr>)"
  unfolding scrimp_next_def prod.case
  by (simp add: g10_def ranges10 inner10 merge10')

lemma snaps10: "scrimp_snapshots (example_env 1 [3]) 1 (replicate 10 (Flt 1)) 8 1 True None =
    [[(Flt 0, 1), (Flt 0, 0), (PInf, - 1)]]"
  unfolding scrimp_snapshots_def start10 by (simp add: next10)

section \<open>PreSCRIMP: the scan and the extension\<close>








lemma py_get_nonneg: "0 \<le> i \<Longrightarrow> py_get xs i = (if i < int (length xs) then Inr (xs ! nat i) else Inl IndexError)"
  by (simp add: py_get_def)

lemma py_set_nonneg: "0 \<le> i \<Longrightarrow> py_set xs i v = (if i < int (length xs) then Inr (xs[nat i := v]) else Inl IndexError)"
  by (simp add: py_set_def)

lemma length_py_fill [simp]: "length (py_fill xs a b v) = length xs"
  by (simp add: py_fill_def)





section \<open>The generator: what a round does to the running profile\<close>

lemma fl_le_refl: "a \<noteq> NaN \<Longrightarrow> fl_le a a"
  by (simp add: fl_le_def)

lemma fl_less_imp_le: "fl_less a b \<Longrightarrow> fl_le a b"
  using fl_less_not_NaN[of a b] fl_less_asym[of a b] by (auto simp: fl_le_def)

lemma merge_step_result:
  assumes "merge_step P I i out = Inr out'" "0 \<le> i"
  shows "length out' = length out
         \<and> (\<forall>j < length out. out' ! j = out ! j
               \<or> (j = nat i \<and> fl_less (fst (out' ! j)) (fst (out ! j))))"
proof (cases "i < int (length out)")
  case False
  then have "merge_step P I i out = Inl IndexError"
    unfolding merge_step_def using assms(2) by (simp add: py_get_nonneg)
  then show ?thesis using assms(1) by simp
next
  case il: True
  have g1: "py_get out i = Inr (out ! nat i)" using il assms(2) by (simp add: py_get_nonneg)
  show ?thesis
  proof (cases "py_get P i")
    case (Inl err)
    then show ?thesis using assms(1) unfolding merge_step_def g1 by simp
  next
    case (Inr p)
    show ?thesis
    proof (cases "fl_greater (fst (out ! nat i)) p")
      case False
      then have "out' = out" using assms(1) unfolding merge_step_def g1 Inr by simp
      then show ?thesis by simp
    next
      case gr: True
      show ?thesis
      proof (cases "py_get I i")
        case (Inl err)
        then show ?thesis using assms(1) gr unfolding merge_step_def g1 Inr by simp
      next
        case idx: (Inr ix)
        have "out' = out[nat i := (p, ix)]"
          using assms(1,2) gr il unfolding merge_step_def g1 Inr idx
          by (simp add: py_set_nonneg)
        then show ?thesis using gr il assms(2)
          by (simp add: nth_list_update fl_greater_def)
      qed
    qed
  qed
qed

lemma merge_loop_result:
  assumes "efold (merge_step P I) js out = Inr out'" "\<forall>j \<in> set js. 0 \<le> j"
  shows "length out' = length out
         \<and> (\<forall>j < length out. out' ! j = out ! j \<or> fl_less (fst (out' ! j)) (fst (out ! j)))"
  using assms
proof (induction js arbitrary: out)
  case Nil
  then show ?case by simp
next
  case (Cons i js)
  obtain out1 where s: "merge_step P I i out = Inr out1"
      and r: "efold (merge_step P I) js out1 = Inr out'"
    using Cons.prems(1) by (auto simp: ebind_def split: sum.splits)
  have i0: "0 \<le> i" using Cons.prems(2) by simp
  note a = merge_step_result[OF s i0]
  have b: "length out' = length out1
         \<and> (\<forall>j < length out1. out' ! j = out1 ! j \<or> fl_less (fst (out' ! j)) (fst (out1 ! j)))"
    using Cons.IH[OF r] Cons.prems(2) by simp
  show ?case
  proof (intro conjI allI impI)
    show "length out' = length out" using a b by simp
  next
    fix j assume j: "j < length out"
    then have j1: "j < length out1" using a by simp
    have "out1 ! j = out ! j \<or> fl_less (fst (out1 ! j)) (fst (out ! j))" using a j by blast
    moreover have "out' ! j = out1 ! j \<or> fl_less (fst (out' ! j)) (fst (out1 ! j))" using b j1 by blast
    ultimately show "out' ! j = out ! j \<or> fl_less (fst (out' ! j)) (fst (out ! j))"
      using fl_less_trans[of "fst (out' ! j)" "fst (out1 ! j)" "fst (out ! j)"] by auto
  qed
qed

lemma merge_loop_improves:
  assumes "efold (merge_step P I) js out = Inr out'" "\<forall>j \<in> set js. 0 \<le> j"
    and "list_all (\<lambda>row. fst row \<noteq> NaN) out"
  shows "improves_on out' out \<and> list_all (\<lambda>row. fst row \<noteq> NaN) out'"
proof -
  note r = merge_loop_result[OF assms(1,2)]
  have nn: "fst (out ! j) \<noteq> NaN" if "j < length out" for j
    using assms(3) that by (simp add: list_all_length)
  have le: "fl_le (fst (out' ! j)) (fst (out ! j))" if "j < length out" for j
  proof -
    have "out' ! j = out ! j \<or> fl_less (fst (out' ! j)) (fst (out ! j))" using r that by blast
    then show ?thesis
      using nn[OF that] fl_le_refl[of "fst (out ! j)"] fl_less_imp_le by auto
  qed
  have nn': "fst (out' ! j) \<noteq> NaN" if "j < length out'" for j
  proof -
    have j: "j < length out" using that r by simp
    have "out' ! j = out ! j \<or> fl_less (fst (out' ! j)) (fst (out ! j))" using r j by blast
    then show ?thesis using nn[OF j] fl_less_not_NaN by auto
  qed
  show ?thesis
    unfolding improves_on_def using r le nn' by (simp add: list_all_length)
qed


lemma ebind_Inr_iff: "(ebind c f = Inr y) = (\<exists>x. c = Inr x \<and> f x = Inr y)"
  by (cases c) (simp_all add: ebind_def)

lemma scrimp_next_Some:
  assumes "scrimp_next e (h, g) = Inr (Some a, h', g')"
  obtains rs P I out' where
    "get_orders_ranges (g_n_threads g) (g_m g) (int (length (g_T g))) (g_orders g) (g_start g)
       (g_percentage g) = Inr rs"
    "rs \<noteq> []"
    "scrimp_inner e (g_T g) (g_m g) (g_\<mu> g) (g_\<sigma> g) (g_orders g) rs (g_excl_zone g)
       (g_percentage g) = Inr (P, I)"
    "efold (merge_step P I) (range_py 0 (int (length (h ! g_out g)))) (h ! g_out g) = Inr out'"
    "a = g_out g" "h' = h[g_out g := out']"
    "g' = g\<lparr>g_start := foldl max (snd (hd rs)) (map snd rs), g_round := g_round g + 1\<rparr>"
    "g_round g < g_generator_rounds g"
proof -
  have lt: "g_round g < g_generator_rounds g"
    using assms unfolding scrimp_next_def by (auto split: if_splits)
  show ?thesis
    using assms lt that unfolding scrimp_next_def prod.case Let_def
    by (auto simp add: ebind_Inr_iff split: if_splits)
qed

lemma scrimp_next_step:
  assumes "scrimp_next e (h, g) = Inr (Some a, h', g')" "out_ok (h, g)"
  shows "a = g_out g \<and> g_out g' = g_out g \<and> length h' = length h \<and> out_ok (h', g')
         \<and> improves_on (h' ! a) (h ! a)"
proof -
  obtain rs P I out' where
    "get_orders_ranges (g_n_threads g) (g_m g) (int (length (g_T g))) (g_orders g) (g_start g)
       (g_percentage g) = Inr rs"
    "rs \<noteq> []"
    "scrimp_inner e (g_T g) (g_m g) (g_\<mu> g) (g_\<sigma> g) (g_orders g) rs (g_excl_zone g)
       (g_percentage g) = Inr (P, I)"
    and m: "efold (merge_step P I) (range_py 0 (int (length (h ! g_out g)))) (h ! g_out g) = Inr out'"
    and r: "a = g_out g" "h' = h[g_out g := out']"
      "g' = g\<lparr>g_start := foldl max (snd (hd rs)) (map snd rs), g_round := g_round g + 1\<rparr>"
    and "g_round g < g_generator_rounds g"
    using assms(1) by (rule scrimp_next_Some)
  have ok: "g_out g < length h" "list_all (\<lambda>row. fst row \<noteq> NaN) (h ! g_out g)"
    using assms(2) by (simp_all add: out_ok_def)
  have "improves_on out' (h ! g_out g) \<and> list_all (\<lambda>row. fst row \<noteq> NaN) out'"
    by (rule merge_loop_improves[OF m _ ok(2)]) simp
  then show ?thesis using r ok by (simp add: out_ok_def)
qed


lemma scrimp_next_out_ok:
  assumes "scrimp_next e hg = Inr (Some a, hg')" "out_ok hg"
  shows "a = g_out (snd hg) \<and> g_out (snd hg') = g_out (snd hg) \<and> out_ok hg'
         \<and> improves_on (fst hg' ! a) (fst hg ! a)"
proof -
  have "scrimp_next e (fst hg, snd hg) = Inr (Some a, fst hg', snd hg')" "out_ok (fst hg, snd hg)"
    using assms by simp_all
  from scrimp_next_step[OF this] show ?thesis by auto
qed

lemma scrimp_items_chain:
  assumes "out_ok hg"
  shows "(\<forall>r < length (scrimp_items e k hg). fst (scrimp_items e k hg ! r) = g_out (snd hg))
       \<and> (scrimp_items e k hg \<noteq> [] \<longrightarrow>
            improves_on (snd (hd (scrimp_items e k hg)) ! g_out (snd hg)) (fst hg ! g_out (snd hg)))
       \<and> (\<forall>r. Suc r < length (scrimp_items e k hg) \<longrightarrow>
            improves_on (snd (scrimp_items e k hg ! Suc r) ! g_out (snd hg))
                        (snd (scrimp_items e k hg ! r) ! g_out (snd hg)))"
  using assms
proof (induction k arbitrary: hg)
  case 0
  then show ?case by simp
next
  case (Suc k)
  show ?case
  proof (cases "\<exists>a hg'. scrimp_next e hg = Inr (Some a, hg')")
    case False
    then have "scrimp_items e (Suc k) hg = []"
      by (auto split: sum.splits option.splits prod.splits)
    then show ?thesis by simp
  next
    case True
    then obtain a hg' where n: "scrimp_next e hg = Inr (Some a, hg')" by blast
    note s = scrimp_next_out_ok[OF n Suc.prems]
    have ok': "out_ok hg'" using s by simp
    note ih = Suc.IH[OF ok']
    define rest where "rest = scrimp_items e k hg'"
    have items: "scrimp_items e (Suc k) hg = (a, fst hg') # rest"
      using n unfolding rest_def by (cases hg') simp
    have o: "g_out (snd hg') = g_out (snd hg)" "a = g_out (snd hg)" using s by simp_all
    have i1: "\<forall>r < length rest. fst (rest ! r) = g_out (snd hg)"
      using ih o unfolding rest_def by simp
    have i2: "rest \<noteq> [] \<longrightarrow> improves_on (snd (hd rest) ! g_out (snd hg)) (fst hg' ! g_out (snd hg))"
      using ih o unfolding rest_def by simp
    have i3: "\<forall>r. Suc r < length rest \<longrightarrow>
            improves_on (snd (rest ! Suc r) ! g_out (snd hg)) (snd (rest ! r) ! g_out (snd hg))"
      using ih o unfolding rest_def by simp
    have a: "\<forall>r < length ((a, fst hg') # rest). fst (((a, fst hg') # rest) ! r) = g_out (snd hg)"
    proof (intro allI impI)
      fix r assume "r < length ((a, fst hg') # rest)"
      then show "fst (((a, fst hg') # rest) ! r) = g_out (snd hg)"
        using i1 o by (cases r) simp_all
    qed
    have b: "improves_on (snd (hd ((a, fst hg') # rest)) ! g_out (snd hg)) (fst hg ! g_out (snd hg))"
      using s o by simp
    have c: "\<forall>r. Suc r < length ((a, fst hg') # rest) \<longrightarrow>
            improves_on (snd (((a, fst hg') # rest) ! Suc r) ! g_out (snd hg))
                        (snd (((a, fst hg') # rest) ! r) ! g_out (snd hg))"
    proof (intro allI impI)
      fix r assume r: "Suc r < length ((a, fst hg') # rest)"
      show "improves_on (snd (((a, fst hg') # rest) ! Suc r) ! g_out (snd hg))
                        (snd (((a, fst hg') # rest) ! r) ! g_out (snd hg))"
      proof (cases r)
        case 0
        then have "rest \<noteq> []" using r by auto
        then show ?thesis using i2 0 by (simp add: hd_conv_nth)
      next
        case (Suc r')
        then show ?thesis using i3 r by simp
      qed
    qed
    show ?thesis unfolding items using a b c by simp
  qed
qed

lemma scrimp_start_out_ok:
  assumes "scrimp_start e h T m percentage do_prescrimp s = Inr hg"
  shows "out_ok hg \<and> g_out (snd hg) = length h \<and> length (fst hg) = Suc (length h)"
proof -
  define l where "l = int (length T) - m + 1"
  define out0 :: profile where "out0 = replicate (nat l) (PInf, - 1)"
  have nn0: "list_all (\<lambda>row. fst row \<noteq> NaN) out0" by (simp add: out0_def list_all_length)
  have "\<exists>out g. hg = (h @ [out], g) \<and> g_out g = length h
          \<and> (out = out0 \<or> (\<exists>P I js. efold (merge_step P I) (range_py 0 js) out0 = Inr out))"
    using assms unfolding scrimp_start_def Let_def out0_def l_def
    by (auto simp add: ebind_Inr_iff split: if_splits)
  then obtain out g where hg: "hg = (h @ [out], g)" "g_out g = length h"
    and o: "out = out0 \<or> (\<exists>P I js. efold (merge_step P I) (range_py 0 js) out0 = Inr out)"
    by blast
  have "list_all (\<lambda>row. fst row \<noteq> NaN) out"
  proof (cases "out = out0")
    case True
    then show ?thesis using nn0 by simp
  next
    case False
    then obtain P I js where m: "efold (merge_step P I) (range_py 0 js) out0 = Inr out"
      using o by blast
    have "\<forall>j \<in> set (range_py 0 js). 0 \<le> j" by simp
    from merge_loop_improves[OF m this nn0] show ?thesis by simp
  qed
  then show ?thesis using hg by (simp add: out_ok_def)
qed

section \<open>Evaluating the generator on a constant series\<close>

text \<open>
  A series of 5 equal points with \<open>m = 3\<close> and \<open>percentage = 0.5\<close>: three windows, an
  exclusion zone of 1, and the diagonals 2 and 3, walked by one worker in two rounds.  The
  first round walks diagonal 2, which lies within the exclusion zone, and the second one
  finds the pair of windows 0 and 2.
\<close>

lemma ez3: "excl_zone_of 3 = 1" by (simp add: excl_zone_of_def)

lemma rep5: "replicate 5 (Flt 1) = [Flt 1, Flt 1, Flt 1, Flt 1, Flt 1]"
  by (simp add: eval_nat_numeral)

lemma ms5: "sliding_mean_std (replicate 5 (Flt 1)) 3 = ([Flt 1, Flt 1, Flt 1], [Flt 0, Flt 0, Flt 0])"
  unfolding rep5
  by (simp add: sliding_mean_std_def windows_def window_mean_def window_std_def fl_square_def fl_sub_def eval_nat_numeral)

lemma start5: "scrimp_start (example_env 1 [2, 3]) [] (replicate 5 (Flt 1)) 3 (1 / 2) False None =
   Inr ([[(PInf, - 1), (PInf, - 1), (PInf, - 1)]], g5)"
proof -
  have t1: "map (\<lambda>x. if x = PInf \<or> x = NInf then NaN else x) (replicate 5 (Flt 1)) = replicate 5 (Flt 1)"
    "map (\<lambda>x. if x = NaN then Flt 0 else x) (replicate 5 (Flt 1)) = replicate 5 (Flt 1)"
    by simp_all
  have c: "check_window_size (example_env 1 [2, 3]) 3" "compute_mean_std (example_env 1 [2, 3]) = sliding_mean_std"
    "permutation_orders (example_env 1 [2, 3]) xs = [2, 3]" "NUMBA_NUM_THREADS (example_env 1 [2, 3]) = 1" for xs
    by (simp_all add: example_env_def)
  have l: "int (length (replicate 5 (Flt 1))) - 3 + 1 = 3" by simp
  have o: "replicate (nat 3) (PInf, - 1 :: int) = [(PInf, - 1), (PInf, - 1), (PInf, - 1)]"
    by (simp add: eval_nat_numeral)
  show ?thesis
    unfolding scrimp_start_def Let_def t1 l ez3 c(2-) ms5 fst_conv snd_conv option.case o ebind_Inr
    by (simp add: c(1) g5_def)
qed

lemma ranges5_first: "get_orders_ranges 1 3 5 [2, 3] 0 (1 / 2) = Inr [(0, 1)]"
  by (simp add: get_orders_ranges_def get_max_order_idx_def range_py_def
        getitem_def setitem_def orders_ranges_step_def Let_def eval_nat_numeral)

lemma ranges5_second: "get_orders_ranges 1 3 5 [2, 3] 1 (1 / 2) = Inr [(1, 2)]"
  by (simp add: get_orders_ranges_def get_max_order_idx_def range_py_def
        getitem_def setitem_def orders_ranges_step_def Let_def eval_nat_numeral)

lemma inner5_first: "scrimp_inner (example_env 1 [2, 3]) (replicate 5 (Flt 1)) 3 [Flt 1, Flt 1, Flt 1] [Flt 0, Flt 0, Flt 0]
   [2, 3] [(0, 1)] 1 (1 / 2) = Inr ([PInf, PInf, PInf], [- 1, - 1, - 1])"
  unfolding rep5 by (simp add: eval_walk eval_nat_numeral)

lemma inner5_second: "scrimp_inner (example_env 1 [2, 3]) (replicate 5 (Flt 1)) 3 [Flt 1, Flt 1, Flt 1] [Flt 0, Flt 0, Flt 0]
   [2, 3] [(1, 2)] 1 (1 / 2) = Inr ([Flt 0, PInf, Flt 0], [2, - 1, 0])"
  unfolding rep5 by (simp add: eval_walk eval_nat_numeral)

lemma merge5_first: "efold (merge_step [PInf, PInf, PInf] [- 1, - 1, - 1]) (range_py 0 3)
     [(PInf, - 1), (PInf, - 1), (PInf, - 1)] = Inr [(PInf, - 1), (PInf, - 1), (PInf, - 1)]"
  by (simp add: range_py_def eval_nat_numeral merge_step_def py_get_def py_set_def fl_greater_def)

lemma merge5_second: "efold (merge_step [Flt 0, PInf, Flt 0] [2, - 1, 0]) (range_py 0 3)
     [(PInf, - 1), (PInf, - 1), (PInf, - 1)] = Inr [(Flt 0, 2), (PInf, - 1), (Flt 0, 0)]"
  by (simp add: range_py_def eval_nat_numeral merge_step_def py_get_def py_set_def fl_greater_def)

lemma next5_first: "scrimp_next (example_env 1 [2, 3]) ([[(PInf, - 1), (PInf, - 1), (PInf, - 1)]], g5) =
   Inr (Some 0, [[(PInf, - 1), (PInf, - 1), (PInf, - 1)]], g5\<lparr>g_start := 1, g_round := 1\<rparr>)"
  unfolding scrimp_next_def prod.case
  by (simp add: g5_def ranges5_first inner5_first merge5_first)

lemma next5_second: "scrimp_next (example_env 1 [2, 3])
     ([[(PInf, - 1), (PInf, - 1), (PInf, - 1)]], g5\<lparr>g_start := 1, g_round := 1\<rparr>) =
   Inr (Some 0, [[(Flt 0, 2), (PInf, - 1), (Flt 0, 0)]], g5\<lparr>g_start := 2, g_round := 2\<rparr>)"
  unfolding scrimp_next_def prod.case
  by (simp add: g5_def ranges5_second inner5_second merge5_second)

lemma next5_end: "scrimp_next (example_env 1 [2, 3])
     ([[(Flt 0, 2), (PInf, - 1), (Flt 0, 0)]], g5\<lparr>g_start := 2, g_round := 2\<rparr>) =
   Inr (None, [[(Flt 0, 2), (PInf, - 1), (Flt 0, 0)]], g5\<lparr>g_start := 2, g_round := 2\<rparr>)"
  unfolding scrimp_next_def prod.case
  by (simp add: g5_def)

lemma items5: "scrimp_items (example_env 1 [2, 3]) (Suc (Suc k)) ([[(PInf, - 1), (PInf, - 1), (PInf, - 1)]], g5) =
    [(0, [[(PInf, - 1), (PInf, - 1), (PInf, - 1)]]), (0, [[(Flt 0, 2), (PInf, - 1), (Flt 0, 0)]])]"
  by (cases k) (simp_all add: next5_first next5_second next5_end)

lemma snaps5: "scrimp_snapshots (example_env 1 [2, 3]) 2 (replicate 5 (Flt 1)) 3 (1 / 2) False None =
    [[(PInf, - 1), (PInf, - 1), (PInf, - 1)], [(Flt 0, 2), (PInf, - 1), (Flt 0, 0)]]"
proof -
  have two: "(2::nat) = Suc (Suc 0)" by simp
  show ?thesis unfolding scrimp_snapshots_def start5 sum.case two items5 by simp
qed

section \<open>The split of the diagonals: where a round stops\<close>




section \<open>The diagonal walk stays in bounds\<close>

text \<open>
  Claim C10.  On the inputs described by \<open>walk_ok\<close> (every diagonal \<open>k\<close> that is walked
  has \<open>excl_zone + 1 \<le> k \<le> n - m + 1\<close>, the statistics have \<open>n - m + 1\<close> cells) and
  tables with a row \<open>thread_idx\<close> of \<open>n - m + 1\<close> columns, \<open>_compute_diagonal\<close> returns:
  since the model refuses every subscript outside \<open>[0, len)\<close>, every read of \<open>T\<close>,
  \<open>\<mu>\<close> and \<open>\<sigma>\<close> and every access to the tables, at every row \<open>0 \<le> i < n - m + 2 - k\<close>
  of every such diagonal, was in bounds.  The writes change row \<open>thread_idx\<close> of the
  tables only, and keep its length.
\<close>

theorem C10_compute_diagonal_in_bounds:
  assumes "walk_ok T m \<mu> \<sigma> excl_zone orders (range_py orders_start_idx orders_stop_idx)"
    and "0 \<le> thread_idx" "thread_idx < int (length P)" "length I = length P"
    and "int (length (P ! nat thread_idx)) = int (length T) - m + 1"
    and "length (I ! nat thread_idx) = length (P ! nat thread_idx)"
  shows "\<exists>p q. compute_diagonal e T m \<mu> \<sigma> orders orders_start_idx orders_stop_idx excl_zone
                 thread_idx P I = Inr (P[nat thread_idx := p], I[nat thread_idx := q])
               \<and> length p = length (P ! nat thread_idx)
               \<and> length q = length (I ! nat thread_idx)"
proof -
  define R where "R = fold upd (walk_cands e T m \<mu> \<sigma> excl_zone orders
                                 (range_py orders_start_idx orders_stop_idx))
                        (P ! nat thread_idx, I ! nat thread_idx)"
  have "compute_diagonal e T m \<mu> \<sigma> orders orders_start_idx orders_stop_idx excl_zone
                 thread_idx P I = Inr (P[nat thread_idx := fst R], I[nat thread_idx := snd R])"
    unfolding R_def using compute_diagonal_cands[OF assms] .
  moreover have "length (fst R) = length (P ! nat thread_idx)" "length (snd R) = length (I ! nat thread_idx)"
    unfolding R_def by simp_all
  ultimately show ?thesis by blast
qed

text \<open>
  The theorem on a series of 8 points with \<open>m = 4\<close>, the diagonals 3 and 5, and one
  worker.
\<close>

theorem C10_compute_diagonal_in_bounds_witness:
  "walk_ok (map Flt [0, 2, 0, 2, 0, 2, 0, 2]) 4 (replicate 5 (Flt 1)) (replicate 5 (Flt 1)) 1 [3, 5]
     (range_py 0 2)
   \<and> (0::int) \<le> 0 \<and> 0 < int (length [replicate 5 PInf])
   \<and> length [replicate 5 (- 1 :: int)] = length [replicate 5 PInf]
   \<and> int (length ([replicate 5 PInf] ! nat 0)) = int (length (map Flt [0, 2, 0, 2, 0, 2, 0, 2])) - 4 + 1
   \<and> length ([replicate 5 (- 1 :: int)] ! nat 0) = length ([replicate 5 PInf] ! nat 0)
   \<and> (\<exists>p q. compute_diagonal (example_env 1 [3, 5]) (map Flt [0, 2, 0, 2, 0, 2, 0, 2]) 4
                (replicate 5 (Flt 1)) (replicate 5 (Flt 1)) [3, 5] 0 2 1 0
                [replicate 5 PInf] [replicate 5 (- 1)] = Inr ([p], [q])
              \<and> length p = 5 \<and> length q = 5)"
proof -
  have ok: "walk_ok (map Flt [0, 2, 0, 2, 0, 2, 0, 2]) 4 (replicate 5 (Flt 1)) (replicate 5 (Flt 1)) 1
              [3, 5] (range_py 0 2)"
    by (simp add: walk_ok_def range_py_def eval_nat_numeral)
  have "\<exists>p q. compute_diagonal (example_env 1 [3, 5]) (map Flt [0, 2, 0, 2, 0, 2, 0, 2]) 4
                (replicate 5 (Flt 1)) (replicate 5 (Flt 1)) [3, 5] 0 2 1 0
                [replicate 5 PInf] [replicate 5 (- 1)] = Inr ([replicate 5 PInf][nat 0 := p], [replicate 5 (- 1)][nat 0 := q])
               \<and> length p = length ([replicate 5 PInf] ! nat 0)
               \<and> length q = length ([replicate 5 (- 1 :: int)] ! nat 0)"
    by (rule C10_compute_diagonal_in_bounds[OF ok]) simp_all
  then show ?thesis using ok by simp
qed

section \<open>The split of the diagonals: one range per worker\<close>



lemma max_order_index_rule_facts:
  assumes "0 \<le> start" "start \<le> int (length orders)"
    and "max_order_index_rule td m n orders start percentage = (stop, c)"
  shows "start \<le> stop \<and> stop \<le> int (length orders) \<and> c = dist_count m n orders start stop"
proof (cases "find (\<lambda>j. real_of_int (dist_count m n orders start (j + 1)) / real_of_int td
                       > percentage) (range_py start (int (length orders)))")
  case None
  then show ?thesis using assms by (auto simp: max_order_index_rule_def)
next
  case (Some j)
  then obtain i where "i < length (range_py start (int (length orders)))"
      "range_py start (int (length orders)) ! i = j"
    unfolding find_Some_iff by blast
  then have "j \<in> set (range_py start (int (length orders)))"
    using nth_mem by blast
  then have "start \<le> j" "j < int (length orders)" unfolding set_range_py by auto
  then show ?thesis using assms Some by (auto simp: max_order_index_rule_def)
qed

lemma ranges_inv_bound:
  assumes inv: "ranges_inv m n orders n_split start share j (rs, ri, rsi, c)"
    and v: "valid_orders m n orders" and s0: "0 \<le> start"
    and j: "j \<le> stop" "stop \<le> int (length orders)"
    and ns: "0 < n_split"
    and share: "share = real_of_int (dist_count m n orders start stop) / real_of_int n_split"
  shows "ri < n_split"
proof (cases "0 < ri")
  case False
  then show ?thesis using ns by simp
next
  case True
  have rsi: "start \<le> rsi" "rsi \<le> j" using inv by (auto simp: ranges_inv_def)
  have "dist_count m n orders start stop = dist_count m n orders start rsi + dist_count m n orders rsi stop"
    using rsi j by (intro dist_count_append) auto
  moreover have "0 \<le> dist_count m n orders rsi stop"
    using v s0 rsi j by (intro dist_count_nonneg) auto
  ultimately have le: "dist_count m n orders start rsi \<le> dist_count m n orders start stop" by linarith
  have td: "real_of_int n_split * share = real_of_int (dist_count m n orders start stop)"
    using ns share by simp
  have "0 \<le> dist_count m n orders start stop"
    using v s0 j rsi by (intro dist_count_nonneg) auto
  then have sh0: "0 \<le> share" using share ns by simp
  have "real_of_int ri * share < real_of_int (dist_count m n orders start rsi)"
    using inv True by (simp add: ranges_inv_def)
  then have lt: "real_of_int ri * share < real_of_int n_split * share" using le td by linarith
  show ?thesis
  proof (rule ccontr)
    assume "\<not> ri < n_split"
    then have "real_of_int n_split \<le> real_of_int ri" by simp
    then have "real_of_int n_split * share \<le> real_of_int ri * share"
      using sh0 by (intro mult_right_mono) auto
    with lt show False by linarith
  qed
qed


lemma orders_ranges_step_inv:
  assumes inv: "ranges_inv m n orders n_split start share j st"
    and v: "valid_orders m n orders" and s0: "0 \<le> start"
    and j: "start \<le> j" "j < stop" "stop \<le> int (length orders)"
    and ns: "0 < n_split"
    and share: "share = real_of_int (dist_count m n orders start stop) / real_of_int n_split"
  shows "\<exists>st'. orders_ranges_step m n orders stop share j st = Inr st'
               \<and> ranges_inv m n orders n_split start share (j + 1) st'"
proof -
  obtain rs ri rsi c where st: "st = (rs, ri, rsi, c)" by (cases st) auto
  note inv' = inv[unfolded st ranges_inv_def, simplified]
  have len: "int (length rs) = n_split" and ri0: "0 \<le> ri" and rsi: "start \<le> rsi" "rsi \<le> j"
    and c: "c = dist_count m n orders rsi j" and cle: "real_of_int c \<le> share"
    and cc: "concat (map (\<lambda>r. range_py (fst r) (snd r)) (take (nat ri) rs)) = range_py start rsi"
    and zeros: "\<forall>t. nat ri \<le> t \<and> t < length rs \<longrightarrow> rs ! t = (0, 0)"
    and rows: "\<forall>r \<in> set (take (nat ri) rs). fst r < snd r \<and>
              real_of_int (dist_count m n orders (fst r) (snd r))
                \<le> share + real_of_int (n - m + 2 - orders ! nat (snd r - 1))"
    and sum1: "real_of_int ri * share \<le> real_of_int (dist_count m n orders start rsi)"
    using inv' by auto
  have ri_lt: "ri < n_split"
    using ranges_inv_bound[OF inv[unfolded st] v s0 _ j(3) ns share] j by simp
  define d where "d = n - m + 2 - orders ! nat j"
  define c' where "c' = c + d"
  have d1: "1 \<le> d" unfolding d_def using valid_orders_nth[OF v, of j] s0 j by simp
  have c'_eq: "c' = dist_count m n orders rsi (j + 1)"
    unfolding c'_def c d_def using dist_count_snoc[of rsi "j + 1" m n orders] rsi by simp
  have get: "getitem orders j = Inr (orders ! nat j)" using s0 j by simp
  have td0: "0 \<le> dist_count m n orders start stop"
    using v s0 j by (intro dist_count_nonneg) auto
  have sh0: "0 \<le> share" using share ns td0 by simp
  show ?thesis
  proof (cases "real_of_int c' > share")
    case True
    have put: "setitem rs ri (rsi, min (j + 1) stop) = Inr (rs[nat ri := (rsi, j + 1)])"
      using ri0 ri_lt len j by (simp add: min_def)
    have step: "orders_ranges_step m n orders stop share j st
                 = Inr (rs[nat ri := (rsi, j + 1)], ri + 1, j + 1, 0)"
      unfolding st orders_ranges_step_def using True
      by (simp add: get Let_def put c'_def d_def del: setitem_in)
    have nri: "nat ri < length rs" using ri0 ri_lt len by linarith
    have take_new: "take (nat (ri + 1)) (rs[nat ri := (rsi, j + 1)]) = take (nat ri) rs @ [(rsi, j + 1)]"
    proof -
      have "nat (ri + 1) = Suc (nat ri)" using ri0 by simp
      then show ?thesis using nri by (simp add: take_Suc_conv_app_nth)
    qed
    have cc': "concat (map (\<lambda>r. range_py (fst r) (snd r)) (take (nat (ri + 1)) (rs[nat ri := (rsi, j + 1)])))
               = range_py start (j + 1)"
      unfolding take_new using cc range_py_append[of start rsi "j + 1"] rsi by simp
    have newrow: "real_of_int (dist_count m n orders rsi (j + 1))
                \<le> share + real_of_int (n - m + 2 - orders ! nat j)"
      using cle c'_eq[symmetric] unfolding c'_def d_def by simp
    have split: "dist_count m n orders start (j + 1) = dist_count m n orders start rsi + c'"
      unfolding c'_eq using rsi by (intro dist_count_append) auto
    have sum': "real_of_int (ri + 1) * share < real_of_int (dist_count m n orders start (j + 1))"
    proof -
      have "real_of_int (ri + 1) * share = real_of_int ri * share + share" by (simp add: algebra_simps)
      then show ?thesis using sum1 True split by simp
    qed
    have inv_new: "ranges_inv m n orders n_split start share (j + 1) (rs[nat ri := (rsi, j + 1)], ri + 1, j + 1, 0)"
      unfolding ranges_inv_def
      apply (simp only: prod.case)
      apply (intro conjI)
      subgoal using len by simp
      subgoal using ri0 by simp
      subgoal using rsi j by simp
      subgoal by simp
      subgoal by simp
      subgoal using sh0 by simp
      subgoal using cc' .
      subgoal using zeros ri0 by (auto simp: nth_list_update)
      subgoal unfolding take_new using rows rsi newrow by auto
      subgoal using sum' by simp
      subgoal using sum' by simp
      done
    show ?thesis using step inv_new by blast
  next
    case False
    have step: "orders_ranges_step m n orders stop share j st = Inr (rs, ri, rsi, c')"
      unfolding st orders_ranges_step_def using False
      by (simp add: get Let_def c'_def d_def)
    have inv_new: "ranges_inv m n orders n_split start share (j + 1) (rs, ri, rsi, c')"
      unfolding ranges_inv_def
      apply (simp only: prod.case)
      apply (intro conjI)
      subgoal using len .
      subgoal using ri0 .
      subgoal using rsi by simp
      subgoal using rsi by simp
      subgoal using c'_eq .
      subgoal using False by simp
      subgoal using cc .
      subgoal using zeros .
      subgoal using rows .
      subgoal using sum1 .
      subgoal using inv' by simp
      done
    show ?thesis using step inv_new by blast
  qed
qed


lemma efold_orders_ranges_inv:
  assumes v: "valid_orders m n orders" and s0: "0 \<le> start"
    and stop: "stop \<le> int (length orders)"
    and ns: "0 < n_split"
    and share: "share = real_of_int (dist_count m n orders start stop) / real_of_int n_split"
  shows "start \<le> j \<Longrightarrow> j \<le> stop \<Longrightarrow> ranges_inv m n orders n_split start share j st \<Longrightarrow>
         \<exists>st'. efold (orders_ranges_step m n orders stop share) (range_py j stop) st = Inr st'
               \<and> ranges_inv m n orders n_split start share stop st'"
proof (induction "nat (stop - j)" arbitrary: j st)
  case 0
  then have "j = stop" by linarith
  then show ?case using 0 by simp
next
  case (Suc d)
  then have lt: "j < stop" by linarith
  obtain st1 where st1: "orders_ranges_step m n orders stop share j st = Inr st1"
      "ranges_inv m n orders n_split start share (j + 1) st1"
    using orders_ranges_step_inv[OF Suc.prems(3) v s0 Suc.prems(1) lt stop ns share] by blast
  have "\<exists>st'. efold (orders_ranges_step m n orders stop share) (range_py (j + 1) stop) st1 = Inr st'
               \<and> ranges_inv m n orders n_split start share stop st'"
    using Suc.hyps(2) Suc.prems lt st1(2) by (intro Suc.hyps(1)) linarith+
  then show ?case
    unfolding range_py_rec[OF lt] by (simp add: st1(1))
qed

lemma concat_zero_rows:
  "\<forall>r \<in> set rs. r = (0, 0) \<Longrightarrow> concat (map (\<lambda>r. range_py (fst r) (snd r)) rs) = []"
  by (induction rs) auto

text \<open>
  What \<open>_get_orders_ranges\<close> returns on the inputs that \<open>scrimp\<close> gives it: it never
  raises, and besides the properties of the ranges stated below, no range ends after
  \<open>stop\<close> and one ends there.
\<close>

lemma get_orders_ranges_shape:
  assumes "valid_orders m n orders" "0 \<le> start" "start \<le> int (length orders)" "1 \<le> n_split"
  shows "\<exists>rs stop td.
           get_max_order_idx m n orders start percentage = Inr (stop, td)
         \<and> get_orders_ranges n_split m n orders start percentage = Inr rs
         \<and> int (length rs) = n_split
         \<and> start \<le> stop \<and> stop \<le> int (length orders)
         \<and> concat (map (\<lambda>r. range_py (fst r) (snd r)) rs) = range_py start stop
         \<and> (\<forall>r \<in> set rs.
               fst r \<le> snd r \<and>
               (fst r < snd r \<longrightarrow>
                  real_of_int (dist_count m n orders (fst r) (snd r))
                    \<le> real_of_int td / real_of_int n_split
                       + real_of_int (n - m + 2 - orders ! nat (snd r - 1))))
         \<and> (\<forall>r \<in> set rs. snd r \<le> stop)
         \<and> (\<exists>r \<in> set rs. snd r = stop)"
proof -
  obtain stop td where rule: "max_order_index_rule (dist_count m n orders 0 (int (length orders)))
                  m n orders start percentage = (stop, td)" by fastforce
  have gm: "get_max_order_idx m n orders start percentage = Inr (stop, td)"
    using get_max_order_idx_rule[OF _ assms(2,3), of m n percentage]
      dist_count_total_pos[OF assms(1)] assms(1) rule by (simp add: valid_orders_def)
  have facts: "start \<le> stop" "stop \<le> int (length orders)" "td = dist_count m n orders start stop"
    using max_order_index_rule_facts[OF assms(2,3) rule] by auto
  define share where "share = real_of_int td / real_of_int n_split"
  have share: "share = real_of_int (dist_count m n orders start stop) / real_of_int n_split"
    unfolding share_def facts(3) ..
  have ns: "0 < n_split" using assms(4) by simp
  have td0: "0 \<le> td" unfolding facts(3) using assms facts by (intro dist_count_nonneg) auto
  have sh0: "0 \<le> share" unfolding share_def using td0 ns by simp
  have inv0: "ranges_inv m n orders n_split start share start (replicate (nat n_split) (0, 0), 0, start, 0)"
    unfolding ranges_inv_def using ns sh0 by simp
  obtain st' where st': "efold (orders_ranges_step m n orders stop share) (range_py start stop)
                           (replicate (nat n_split) (0, 0), 0, start, 0) = Inr st'"
      "ranges_inv m n orders n_split start share stop st'"
    using efold_orders_ranges_inv[OF assms(1,2) facts(2) ns share order_refl facts(1) inv0] by blast
  obtain rs ri rsi c where st: "st' = (rs, ri, rsi, c)" by (cases st') auto
  note inv' = st'(2)[unfolded st ranges_inv_def, simplified]
  have len: "int (length rs) = n_split" and ri0: "0 \<le> ri" and rsi: "start \<le> rsi" "rsi \<le> stop"
    and c: "c = dist_count m n orders rsi stop" and cle: "real_of_int c \<le> share"
    and cc: "concat (map (\<lambda>r. range_py (fst r) (snd r)) (take (nat ri) rs)) = range_py start rsi"
    and zeros: "\<forall>t. nat ri \<le> t \<and> t < length rs \<longrightarrow> rs ! t = (0, 0)"
    and rows: "\<forall>r \<in> set (take (nat ri) rs). fst r < snd r \<and>
              real_of_int (dist_count m n orders (fst r) (snd r))
                \<le> share + real_of_int (n - m + 2 - orders ! nat (snd r - 1))"
    using inv' by auto
  have ri_lt: "ri < n_split"
    using ranges_inv_bound[OF st'(2)[unfolded st] assms(1,2) order_refl facts(2) ns share] .
  have nri: "nat ri < length rs" using ri0 ri_lt len by linarith
  define rs' where "rs' = rs[nat ri := (rsi, stop)]"
  have gr: "get_orders_ranges n_split m n orders start percentage = Inr rs'"
    unfolding get_orders_ranges_def gm using ns st'(1) ri0 ri_lt len
    by (simp add: Let_def share_def[symmetric] st rs'_def)
  have decomp: "rs' = take (nat ri) rs @ [(rsi, stop)] @ drop (Suc (nat ri)) rs"
    unfolding rs'_def using nri by (simp add: upd_conv_take_nth_drop)
  have tail: "\<forall>r \<in> set (drop (Suc (nat ri)) rs). r = (0, 0)"
  proof
    fix r assume "r \<in> set (drop (Suc (nat ri)) rs)"
    then obtain t where "t < length (drop (Suc (nat ri)) rs)" "drop (Suc (nat ri)) rs ! t = r"
      by (auto simp: in_set_conv_nth)
    then have "rs ! (Suc (nat ri) + t) = r" "Suc (nat ri) + t < length rs" by auto
    then show "r = (0, 0)" using zeros by auto
  qed
  have cover: "concat (map (\<lambda>r. range_py (fst r) (snd r)) rs') = range_py start stop"
    unfolding decomp using cc concat_zero_rows[OF tail] range_py_append[of start rsi stop] rsi
    by simp
  have bal: "fst r \<le> snd r \<and>
               (fst r < snd r \<longrightarrow>
                  real_of_int (dist_count m n orders (fst r) (snd r))
                    \<le> real_of_int td / real_of_int n_split
                       + real_of_int (n - m + 2 - orders ! nat (snd r - 1)))" if "r \<in> set rs'" for r
  proof -
    have "r \<in> set (take (nat ri) rs @ [(rsi, stop)] @ drop (Suc (nat ri)) rs)"
      using that decomp by simp
    then consider "r \<in> set (take (nat ri) rs)" | "r = (rsi, stop)" | "r \<in> set (drop (Suc (nat ri)) rs)"
      by auto
    then show ?thesis
    proof cases
      case 1
      then show ?thesis using rows unfolding share_def by fastforce
    next
      case 2
      have "1 \<le> n - m + 2 - orders ! nat (stop - 1)" if "rsi < stop"
        using valid_orders_nth[OF assms(1), of "stop - 1"] that rsi assms(2) facts by simp
      then show ?thesis using 2 rsi cle c unfolding share_def by fastforce
    next
      case 3
      then show ?thesis using tail by auto
    qed
  qed
  have top: "snd r \<le> stop" if "r \<in> set rs'" for r
  proof -
    have "r \<in> set (take (nat ri) rs @ [(rsi, stop)] @ drop (Suc (nat ri)) rs)"
      using that decomp by simp
    then consider "r \<in> set (take (nat ri) rs)" | "r = (rsi, stop)" | "r \<in> set (drop (Suc (nat ri)) rs)"
      by auto
    then show ?thesis
    proof cases
      case 1
      then have lt: "fst r < snd r" using rows by blast
      have "snd r - 1 \<in> set (range_py (fst r) (snd r))" using lt by simp
      then have "snd r - 1 \<in> set (concat (map (\<lambda>r. range_py (fst r) (snd r)) (take (nat ri) rs)))"
        using 1 by auto
      then have "snd r - 1 \<in> set (range_py start rsi)" unfolding cc .
      then show ?thesis using rsi by simp
    next
      case 2
      then show ?thesis by simp
    next
      case 3
      then show ?thesis using tail facts(1) assms(2) by auto
    qed
  qed
  have last: "\<exists>r \<in> set rs'. snd r = stop"
  proof -
    have "(rsi, stop) \<in> set rs'" unfolding decomp by simp
    then show ?thesis by force
  qed
  have "int (length rs') = n_split" unfolding rs'_def using len by simp
  then show ?thesis using gm gr cover bal top last facts(1,2) by blast
qed




section \<open>The reduction gives the profile of a single worker\<close>




section \<open>MPdist: the selection rule\<close>

text \<open>
  Claim C6.  For every vector \<open>P_ABBA\<close> (sorted or not) and every index \<open>k\<close> in range,
  the selection without a custom selector returns \<open>P_ABBA[k]\<close> when that cell is finite,
  and otherwise \<open>P_ABBA[k']\<close> with \<open>k' = max(0, c - 1)\<close>, \<open>c\<close> the number of finite cells
  of \<open>P_ABBA[0:k]\<close>; neither subscript raises.  On \<open>[0.1, 0.2, inf, 0.4, inf]\<close> with
  \<open>k = 2\<close> the result is \<open>0.2\<close>.
\<close>

theorem C6_select_P_ABBA_value:
  "(\<forall>P_ABBA k. 0 \<le> k \<and> k < int (length P_ABBA) \<longrightarrow>
      select_P_ABBA_value P_ABBA k None =
        Inr (if isfinite (P_ABBA ! nat k) then P_ABBA ! nat k
             else P_ABBA ! nat (max 0 (int (length (filter isfinite (take (nat k) P_ABBA))) - 1))))
   \<and> select_P_ABBA_value [Flt (1/10), Flt (2/10), PInf, Flt (4/10), PInf] 2 None
       = Inr (Flt (2/10))"
proof (intro conjI allI impI)
  fix P_ABBA :: "fl list" and k :: int
  assume k: "0 \<le> k \<and> k < int (length P_ABBA)"
  define c where "c = int (length (filter isfinite (take (nat k) P_ABBA)))"
  have "length (filter isfinite (take (nat k) P_ABBA)) \<le> nat k"
    by (metis length_filter_le length_take min.cobounded2 order_trans)
  then have c_le: "c \<le> k" unfolding c_def using k by linarith
  have cnt: "count_nonzero (map isfinite (py_slice_to P_ABBA k)) = c"
    using k by (simp add: count_nonzero_def py_slice_to_def c_def filter_map comp_def)
  have k': "0 \<le> max 0 (c - 1) \<and> max 0 (c - 1) < int (length P_ABBA)"
    using c_le k by linarith
  show "select_P_ABBA_value P_ABBA k None =
        Inr (if isfinite (P_ABBA ! nat k) then P_ABBA ! nat k
             else P_ABBA ! nat (max 0 (int (length (filter isfinite (take (nat k) P_ABBA))) - 1)))"
    using k k' unfolding select_P_ABBA_value_def cnt
    by (simp add: py_get_def ebind_def Let_def c_def)
next
  show "select_P_ABBA_value [Flt (1/10), Flt (2/10), PInf, Flt (4/10), PInf] 2 None
       = Inr (Flt (2/10))"
    by (simp add: select_P_ABBA_value_def py_get_def py_slice_to_def count_nonzero_def ebind_def)
qed

text \<open>The rule at an index whose cell is infinite: three finite cells precede it.\<close>

theorem C6_select_P_ABBA_value_witness:
  "(0::int) \<le> 3 \<and> 3 < int (length [Flt 1, Flt 2, Flt 3, PInf, PInf]) \<and>
   select_P_ABBA_value [Flt 1, Flt 2, Flt 3, PInf, PInf] 3 None = Inr (Flt 3)"
proof -
  have "select_P_ABBA_value [Flt 1, Flt 2, Flt 3, PInf, PInf] 3 None =
        Inr (if isfinite ([Flt 1, Flt 2, Flt 3, PInf, PInf] ! nat 3)
             then [Flt 1, Flt 2, Flt 3, PInf, PInf] ! nat 3
             else [Flt 1, Flt 2, Flt 3, PInf, PInf] !
                    nat (max 0 (int (length (filter isfinite
                      (take (nat 3) [Flt 1, Flt 2, Flt 3, PInf, PInf]))) - 1)))"
    using C6_select_P_ABBA_value by simp
  then show ?thesis by (simp add: eval_nat_numeral)
qed

section \<open>MPdist: the index of the order statistic\<close>


lemma length_fl_insort [simp]: "length (fl_insort a xs) = Suc (length xs)"
  by (induction xs) auto

lemma length_fl_sort [simp]: "length (fl_sort xs) = length xs"
  unfolding fl_sort_def by (induction xs) auto

lemma compute_P_ABBA_length:
  "compute_P_ABBA mp_func T_A T_B m P_ABBA = Inr P \<Longrightarrow> length P = length P_ABBA"
  by (auto simp: compute_P_ABBA_def Let_def py_slice_to_def split: if_splits)

lemma py_get_beyond: "int (length xs) \<le> k \<Longrightarrow> py_get xs k = Inl IndexError"
  by (simp add: py_get_def)

lemma mpdist_inner_explicit_k_beyond:
  assumes "int (length T_A) - m + 1 + int (length T_B) - m + 1 \<le> k"
  shows "\<exists>err. mpdist_inner mp_func T_A T_B m percentage (Some k) None = Inl err"
proof (cases "int (length T_A) - m + 1 + int (length T_B) - m + 1 < 0")
  case True
  then show ?thesis by (simp add: mpdist_inner_def Let_def)
next
  case False
  define len where "len = nat (int (length T_A) - m + 1 + int (length T_B) - m + 1)"
  show ?thesis
  proof (cases "compute_P_ABBA mp_func T_A T_B m (replicate len NaN)")
    case (Inl err)
    then show ?thesis using False by (simp add: mpdist_inner_def Let_def len_def)
  next
    case (Inr P)
    then have "length P = len" using compute_P_ABBA_length by fastforce
    then have "int (length (fl_sort P)) \<le> k" using assms False by (simp add: len_def)
    then have "select_P_ABBA_value (fl_sort P) k None = Inl IndexError"
      by (simp add: select_P_ABBA_value_def py_get_beyond)
    then show ?thesis using False Inr by (simp add: mpdist_inner_def Let_def len_def)
  qed
qed

text \<open>
  Without an explicit \<open>k\<close> the index is computed from the percentage, clamped to
  \<open>[0, 1]\<close>, and is clamped to the last index of \<open>P_ABBA\<close>.
\<close>

lemma mpdist_inner_percentage_k:
  assumes "0 \<le> int (length T_A) - m + 1 + int (length T_B) - m + 1"
    and "compute_P_ABBA mp_func T_A T_B m
           (replicate (nat (int (length T_A) - m + 1 + int (length T_B) - m + 1)) NaN) = Inr P"
  shows "mpdist_inner mp_func T_A T_B m percentage None custom_func =
           select_P_ABBA_value (fl_sort P)
             (min \<lceil>max (min percentage 1) 0 * real_of_int (int (length T_A) + int (length T_B))\<rceil>
                  (int (length T_A) - m + 1 + int (length T_B) - m + 1 - 1)) custom_func"
  using assms by (simp add: mpdist_inner_def Let_def)

text \<open>
  Claim C7.  The first half of the claim holds (lemma \<open>mpdist_inner_percentage_k\<close>).
  The second half does not: an explicit \<open>k\<close> is used as it is given, and one beyond the
  last index makes the subscript \<open>P_ABBA[k]\<close> raise (lemma
  \<open>mpdist_inner_explicit_k_beyond\<close>).  Two series of 5 points with \<open>m = 3\<close> give 6
  distances; \<open>k = n_A + n_B = 10\<close> raises, while the percentage path, which clamps, returns
  the last of the 6 cells for a percentage above 1.
\<close>

theorem C7_explicit_k_not_clamped:
  "mpdist_inner (\<lambda>A m B. replicate (nat (int (length A) - m + 1)) (Flt 1))
     (replicate 5 (Flt 0)) (replicate 5 (Flt 0)) 3 (1/20) (Some 10) None = Inl IndexError
   \<and> mpdist_inner (\<lambda>A m B. replicate (nat (int (length A) - m + 1)) (Flt 1))
     (replicate 5 (Flt 0)) (replicate 5 (Flt 0)) 3 7 None None = Inr (Flt 1)"
  by (simp add: mpdist_inner_def compute_P_ABBA_def py_slice_to_def Let_def fl_sort_def
     select_P_ABBA_value_def py_get_def eval_nat_numeral)

section \<open>PreSCRIMP: the extension around the best pair\<close>


text \<open>
  The theorem on the series of period 2 with \<open>m = 4\<close> and \<open>s = 2\<close>, at the sampled row
  0: the scan finds window 2 at distance 0, and one step forward finds the pair
  \<open>(1, 3)\<close>.
\<close>

lemma ms8: "sliding_mean_std (map Flt [0, 2, 0, 2, 0, 2, 0, 2]) 4 = (replicate 5 (Flt 1), replicate 5 (Flt 1))"
  by (simp add: sliding_mean_std_def windows_def window_mean_def window_std_def fl_square_def fl_sub_def eval_nat_numeral)

lemma r5: "replicate 5 x = [x, x, x, x, x]" by (simp add: eval_nat_numeral)









section \<open>Self-match exclusion and the row without a match\<close>

text \<open>
  When the scan of a sampled row finds no match, the code stores \<open>-1\<close> in \<open>I[i]\<close> and
  then uses it as \<open>j\<close>: the subscripts \<open>\<sigma>[j]\<close>, \<open>\<mu>[j]\<close> wrap to the last window, and
  the steps forward visit the pairs \<open>(i + k, k - 1)\<close>.  On the constant series the first
  such pair is \<open>(1, 0)\<close>; its two windows are constant, their squared distance is 0
  whatever the dot product, and the code records each as the match of the other.  The
  rule of the specification, which tests the exclusion zone, records nothing.
\<close>

lemma no_match_extension:
  "prescrimp_extend (example_env 1 [3]) (replicate 10 (Flt 1)) 8 [Flt 1, Flt 1, Flt 1]
     [Flt 0, Flt 0, Flt 0] 2 3 0 ([PInf, PInf, PInf], [- 1, - 1, - 1])
     = Inr ([Flt 0, Flt 0, PInf], [1, 0, - 1])
   \<and> extension_rule (example_env 1 [3]) (replicate 10 (Flt 1)) 8 [Flt 1, Flt 1, Flt 1]
     [Flt 0, Flt 0, Flt 0] 2 2 3 0 ([PInf, PInf, PInf], [- 1, - 1, - 1])
     = Inr ([PInf, PInf, PInf], [- 1, - 1, - 1])"
proof -
  have g: "py_get [- 1, - 1, - 1 :: int] 0 = Inr (- 1)" "py_get [PInf, PInf, PInf] 0 = Inr PInf"
    "py_get [Flt 0, Flt 0, Flt 0] 0 = Inr (Flt 0)" "py_get [Flt 0, Flt 0, Flt 0] (- 1) = Inr (Flt 0)"
    "py_get [Flt 1, Flt 1, Flt 1] 0 = Inr (Flt 1)" "py_get [Flt 1, Flt 1, Flt 1] (- 1) = Inr (Flt 1)"
    by (simp_all add: py_get_def)
  have q: "fl_add (fl_mul (fl_sub (Flt (real_of_int 8)) (fl_divide PInf (Flt 2)))
                     (fl_mul (Flt 0) (Flt 0)))
                  (fl_mul (fl_mul (Flt (real_of_int 8)) (Flt 1)) (Flt 1)) = NaN"
    by (simp add: fl_sub_def)
  have l: "map (\<lambda>k. 1 + int k) [0..<nat (min 2 (3 - max 0 (- 1)) - 1)] = [1]"
    "map (\<lambda>k. 1 + int k) [0..<nat (min 2 (min (0 + 1) (- 1 + 1)) - 1)] = []"
    by simp_all
  have st: "extension_step_rule (example_env 1 [3]) (replicate 10 (Flt 1)) 8 [Flt 1, Flt 1, Flt 1]
              [Flt 0, Flt 0, Flt 0] 2 (0 + 1) (- 1 + 1) (0 + 1 - 1) (- 1 + 1 - 1) (0 + 1 + 8 - 1)
              (- 1 + 1 + 8 - 1) (NaN, [PInf, PInf, PInf], [- 1, - 1, - 1])
            = Inr (NaN, [PInf, PInf, PInf], [- 1, - 1, - 1])"
    unfolding extension_step_rule_def prod.case r10
    by (simp add: py_get_def improve1_rule_def outside_zone_def Let_def fl_sub_def)
  have "extension_rule (example_env 1 [3]) (replicate 10 (Flt 1)) 8 [Flt 1, Flt 1, Flt 1]
     [Flt 0, Flt 0, Flt 0] 2 2 3 0 ([PInf, PInf, PInf], [- 1, - 1, - 1])
     = Inr ([PInf, PInf, PInf], [- 1, - 1, - 1])"
    unfolding extension_rule_def prod.case g ebind_Inr Let_def q l efold.simps st
    by simp
  then show ?thesis using ext0 by simp
qed

text \<open>
  Claim C3.  The claim fails on the code.  With a series of 10 equal points, \<open>m = 8\<close>
  (so \<open>excl_zone = 2\<close> and three windows) and PreSCRIMP enabled, the only snapshot that
  \<open>scrimp\<close> yields gives window 1 as the match of window 0 and window 0 as the match of
  window 1, one place apart.
\<close>

theorem C3_no_match_breaks_exclusion:
  "excl_zone_of 8 = 2
   \<and> prescrimp (example_env 1 [3]) (replicate 10 (Flt 1)) 8 [Flt 1, Flt 1, Flt 1]
        [Flt 0, Flt 0, Flt 0] (Some 2) = Inr ([Flt 0, Flt 0, PInf], [1, 0, - 1])
   \<and> scrimp_snapshots (example_env 1 [3]) 1 (replicate 10 (Flt 1)) 8 1 True None
        = [[(Flt 0, 1), (Flt 0, 0), (PInf, - 1)]]
   \<and> \<not> self_match_excluded 2 (map snd [(Flt 0, 1), (Flt 0, 0), (PInf, - 1 :: int)])"
proof -
  have "\<not> self_match_excluded 2 (map snd [(Flt 0, 1), (Flt 0, 0), (PInf, - 1 :: int)])"
    by (simp add: self_match_excluded_def eval_nat_numeral)
  then show ?thesis using ez8 pre10 snaps10 by simp
qed
section \<open>C1: successive snapshots only improve\<close>

text \<open>
  C1.  For every series \<open>T\<close>, window \<open>m\<close>, \<open>percentage\<close>, \<open>prescrimp\<close> flag and \<open>s\<close>,
  and whatever the collaborators return: in the sequence of snapshots that \<open>scrimp\<close>
  yields, each read when it is yielded, every snapshot after the first has the length of
  the one before it and, at every position, a distance that is at most the one before
  (\<open>P_r[i] \<le> P_{r-1}[i]\<close>, as a comparison of floats, so neither is NaN).  The
  running profile is changed only by the merge \<open>if out[i, 0] > P[i]\<close>.
\<close>

theorem C1_monotonic_improvement:
  "Suc r < length (scrimp_snapshots e k T m percentage do_prescrimp s) \<Longrightarrow>
   improves_on (scrimp_snapshots e k T m percentage do_prescrimp s ! Suc r)
               (scrimp_snapshots e k T m percentage do_prescrimp s ! r)"
proof (cases "scrimp_start e [] T m percentage do_prescrimp s")
  case (Inl err)
  assume "Suc r < length (scrimp_snapshots e k T m percentage do_prescrimp s)"
  then show ?thesis using Inl by (simp add: scrimp_snapshots_def)
next
  case (Inr hg)
  assume r: "Suc r < length (scrimp_snapshots e k T m percentage do_prescrimp s)"
  have ok: "out_ok hg" using scrimp_start_out_ok[OF Inr] by simp
  note c = scrimp_items_chain[OF ok, of e k]
  have len: "Suc r < length (scrimp_items e k hg)"
    using r Inr by (simp add: scrimp_snapshots_def)
  have a: "fst (scrimp_items e k hg ! Suc r) = g_out (snd hg)"
          "fst (scrimp_items e k hg ! r) = g_out (snd hg)"
    using c len by simp_all
  have "improves_on (snd (scrimp_items e k hg ! Suc r) ! g_out (snd hg))
                    (snd (scrimp_items e k hg ! r) ! g_out (snd hg))"
    using c len by blast
  then show ?thesis using Inr len a by (simp add: scrimp_snapshots_def)
qed

text \<open>
  On the constant series of 5 points the two snapshots are \<open>[\<infinity>, \<infinity>, \<infinity>]\<close> and
  \<open>[0, \<infinity>, 0]\<close>.
\<close>

theorem C1_monotonic_improvement_witness:
  "length (scrimp_snapshots (example_env 1 [2, 3]) 2 (replicate 5 (Flt 1)) 3 (1 / 2) False None) = 2
   \<and> improves_on [(Flt 0, 2), (PInf, - 1), (Flt 0, 0)] [(PInf, - 1), (PInf, - 1), (PInf, - 1)]"
  using C1_monotonic_improvement [of 0 "example_env 1 [2, 3]" 2 "replicate 5 (Flt 1)" 3 "1 / 2" False None]
  by (simp add: snaps5)
section \<open>The generator: every round runs\<close>

text \<open>
  On a generator that \<open>scrimp\<close> has started from a call whose collaborators behave, no
  round raises: the splitter returns one range per thread, the workers walk diagonals
  that fit the series, and the merge reads rows that exist.
\<close>

lemma foldl_max_upper: "a \<le> (b::int) \<Longrightarrow> \<forall>x \<in> set xs. x \<le> b \<Longrightarrow> foldl max a xs \<le> b"
  by (induction xs arbitrary: a) auto

lemma foldl_max_lower: "(a::int) \<le> foldl max a xs"
proof (induction xs arbitrary: a)
  case Nil
  then show ?case by simp
next
  case (Cons x xs)
  have "a \<le> max a x" by simp
  also have "max a x \<le> foldl max (max a x) xs" by (rule Cons.IH)
  finally show ?case by simp
qed

lemma foldl_max_member: "(x::int) \<in> set xs \<Longrightarrow> x \<le> foldl max a xs"
proof (induction xs arbitrary: a)
  case Nil
  then show ?case by simp
next
  case (Cons y ys)
  show ?case
  proof (cases "x = y")
    case True
    have "x \<le> max a y" using True by simp
    also have "max a y \<le> foldl max (max a y) ys" by (rule foldl_max_lower)
    finally show ?thesis by simp
  next
    case False
    then have "x \<in> set ys" using Cons.prems by simp
    from Cons.IH[OF this] show ?thesis by simp
  qed
qed

lemma foldl_max_rows:
  assumes "rs \<noteq> []" "\<forall>r \<in> set rs. snd r \<le> stop" "\<exists>r \<in> set rs. snd r = (stop::int)"
  shows "foldl max (snd (hd rs)) (map snd rs) = stop"
proof (rule antisym)
  have "snd (hd rs) \<le> stop" using assms(1,2) by simp
  then show "foldl max (snd (hd rs)) (map snd rs) \<le> stop"
    using assms(2) by (intro foldl_max_upper) auto
next
  have "stop \<in> set (map snd rs)" using assms(3) by force
  then show "stop \<le> foldl max (snd (hd rs)) (map snd rs)" by (rule foldl_max_member)
qed

lemma merge_step_total:
  assumes "0 \<le> i" "i < int (length out)" "length P = length out" "length I = length out"
  shows "\<exists>out'. merge_step P I i out = Inr out' \<and> length out' = length out"
  using assms unfolding merge_step_def
  by (simp add: py_get_nonneg py_set_nonneg)

lemma merge_loop_total:
  assumes "\<forall>j \<in> set js. 0 \<le> j \<and> j < int (length out)" "length P = length out" "length I = length out"
  shows "\<exists>out'. efold (merge_step P I) js out = Inr out' \<and> length out' = length out"
  using assms
proof (induction js arbitrary: out)
  case Nil
  then show ?case by simp
next
  case (Cons i js)
  obtain out1 where s: "merge_step P I i out = Inr out1" "length out1 = length out"
    using merge_step_total[of i out P I] Cons.prems by auto
  have "\<exists>out'. efold (merge_step P I) js out1 = Inr out' \<and> length out' = length out1"
    using Cons.prems s(2) by (intro Cons.IH) auto
  then show ?case using s by auto
qed

lemma walk_ok_sub:
  assumes "walk_ok T m \<mu> \<sigma> excl_zone orders (range_py 0 L)" "0 \<le> a" "b \<le> L"
  shows "walk_ok T m \<mu> \<sigma> excl_zone orders (range_py a b)"
  using assms unfolding walk_ok_def by (auto simp: list_all_iff)

lemma walk_ok_valid_orders:
  assumes "walk_ok T m \<mu> \<sigma> excl_zone orders (range_py 0 (int (length orders)))" "orders \<noteq> []"
  shows "valid_orders m (int (length T)) orders"
proof -
  have "k < int (length T) - m + 2" if k: "k \<in> set orders" for k
  proof -
    obtain j where j: "j < length orders" "orders ! j = k" using k by (auto simp: in_set_conv_nth)
    have a: "\<forall>i \<in> set (range_py 0 (int (length orders))).
               orders ! nat i \<le> int (length T) - m + 1"
      using assms(1) unfolding walk_ok_def by (simp add: list_all_iff)
    have "int j \<in> set (range_py 0 (int (length orders)))" using j by simp
    from bspec[OF a this] show ?thesis using j by simp
  qed
  then show ?thesis using assms(2) by (simp add: valid_orders_def list_all_iff)
qed


lemma scrimp_next_explicit:
  assumes ok: "gen_ok e (h, g)" and lt: "g_round g < g_generator_rounds g"
  shows "\<exists>stop out'.
           g_start g \<le> stop \<and> stop \<le> int (length (g_orders g))
         \<and> efold (merge_step
                   (map fl_sqrt (fst (fold upd (walk_cands e (g_T g) (g_m g) (g_\<mu> g) (g_\<sigma> g)
                      (g_excl_zone g) (g_orders g) (range_py (g_start g) stop))
                      (init_rows (int (length (g_T g)) - g_m g + 1)))))
                   (snd (fold upd (walk_cands e (g_T g) (g_m g) (g_\<mu> g) (g_\<sigma> g)
                      (g_excl_zone g) (g_orders g) (range_py (g_start g) stop))
                      (init_rows (int (length (g_T g)) - g_m g + 1)))))
               (range_py 0 (int (length (h ! g_out g)))) (h ! g_out g) = Inr out'
         \<and> length out' = length (h ! g_out g)
         \<and> scrimp_next e (h, g) =
               Inr (Some (g_out g), h[g_out g := out'],
                    g\<lparr>g_start := stop, g_round := g_round g + 1\<rparr>)
         \<and> gen_ok e (h[g_out g := out'], g\<lparr>g_start := stop, g_round := g_round g + 1\<rparr>)"
proof -
  define n where "n = int (length (g_T g))"
  define l where "l = n - g_m g + 1"
  have o: "g_out g < length h" and lo: "int (length (h ! g_out g)) = l"
    and ne: "g_orders g \<noteq> []"
    and w: "walk_ok (g_T g) (g_m g) (g_\<mu> g) (g_\<sigma> g) (g_excl_zone g) (g_orders g)
              (range_py 0 (int (length (g_orders g))))"
    and st: "0 \<le> g_start g" "g_start g \<le> int (length (g_orders g))"
    and N: "g_n_threads g = NUMBA_NUM_THREADS e" "1 \<le> NUMBA_NUM_THREADS e"
    using ok unfolding gen_ok_def l_def n_def by simp_all
  have v: "valid_orders (g_m g) n (g_orders g)"
    unfolding n_def using walk_ok_valid_orders[OF w ne] .
  have N1: "1 \<le> g_n_threads g" using N by simp
  obtain rs stop and td :: int where
    gr: "get_orders_ranges (g_n_threads g) (g_m g) n (g_orders g) (g_start g) (g_percentage g) = Inr rs"
    and len: "int (length rs) = g_n_threads g"
    and ss: "g_start g \<le> stop" "stop \<le> int (length (g_orders g))"
    and part: "concat (map (\<lambda>r. range_py (fst r) (snd r)) rs) = range_py (g_start g) stop"
    and top: "\<forall>r \<in> set rs. snd r \<le> stop" "\<exists>r \<in> set rs. snd r = stop"
    using get_orders_ranges_shape[OF v st N1, of "g_percentage g"] by blast
  have rne: "rs \<noteq> []" using len N1 by auto
  have w': "walk_ok (g_T g) (g_m g) (g_\<mu> g) (g_\<sigma> g) (g_excl_zone g) (g_orders g)
              (range_py (g_start g) stop)"
    using walk_ok_sub[OF w st(1) ss(2)] .
  define PI where "PI = fold upd (walk_cands e (g_T g) (g_m g) (g_\<mu> g) (g_\<sigma> g) (g_excl_zone g)
                     (g_orders g) (range_py (g_start g) stop)) (init_rows l)"
  have inner: "scrimp_inner e (g_T g) (g_m g) (g_\<mu> g) (g_\<sigma> g) (g_orders g) rs (g_excl_zone g)
                 (g_percentage g) = Inr (map fl_sqrt (fst PI), snd PI)"
    unfolding PI_def l_def n_def
    by (rule scrimp_inner_partition[OF w' part]) (use len N in simp_all)
  have l0: "0 \<le> l" using lo by linarith
  have lens: "length (map fl_sqrt (fst PI)) = length (h ! g_out g)"
             "length (snd PI) = length (h ! g_out g)"
    unfolding PI_def using lo l0 by simp_all
  have "\<forall>j \<in> set (range_py 0 (int (length (h ! g_out g)))). 0 \<le> j \<and> j < int (length (h ! g_out g))"
    by simp
  from merge_loop_total[OF this lens] obtain out' where
    m: "efold (merge_step (map fl_sqrt (fst PI)) (snd PI)) (range_py 0 (int (length (h ! g_out g))))
          (h ! g_out g) = Inr out'" and lo': "length out' = length (h ! g_out g)"
    by blast
  have mx: "foldl max (snd (hd rs)) (map snd rs) = stop" using foldl_max_rows[OF rne top] .
  define g' where "g' = g\<lparr>g_start := stop, g_round := g_round g + 1\<rparr>"
  have nx: "scrimp_next e (h, g) = Inr (Some (g_out g), h[g_out g := out'], g')"
    unfolding scrimp_next_def prod.case using lt
    by (simp add: gr[unfolded n_def] inner rne Let_def mx m g'_def)
  have ok': "gen_ok e (h[g_out g := out'], g')"
    unfolding gen_ok_def g'_def prod.case using o lo lo' ne w st ss N
    by (simp add: l_def n_def)
  show ?thesis
    using ss m[unfolded PI_def l_def n_def] lo' nx[unfolded g'_def] ok'[unfolded g'_def] by blast
qed





lemma scrimp_start_Inr:
  assumes "scrimp_start e h T m percentage do_prescrimp s = Inr hg"
  shows "\<exists>out. hg = (h @ [out],
            \<lparr>g_T = map (\<lambda>x. if x = NaN then Flt 0 else x)
                     (map (\<lambda>x. if x = PInf \<or> x = NInf then NaN else x) T),
             g_m = m,
             g_\<mu> = fst (compute_mean_std e (map (\<lambda>x. if x = PInf \<or> x = NInf then NaN else x) T) m),
             g_\<sigma> = snd (compute_mean_std e (map (\<lambda>x. if x = PInf \<or> x = NInf then NaN else x) T) m),
             g_excl_zone = excl_zone_of m,
             g_orders = permutation_orders e (range_py (excl_zone_of m + 1) (int (length T) - m + 2)),
             g_n_threads = NUMBA_NUM_THREADS e,
             g_percentage = max (min percentage 1) 0,
             g_generator_rounds = \<lceil>1 / max (min percentage 1) 0\<rceil>,
             g_round = 0, g_start = 0, g_out = length h\<rparr>)
          \<and> int (length out) = int (length T) - m + 1"
proof -
  define l where "l = int (length T) - m + 1"
  define out0 :: profile where "out0 = replicate (nat l) (PInf, - 1)"
  have *: "\<exists>out. hg = (h @ [out],
            \<lparr>g_T = map (\<lambda>x. if x = NaN then Flt 0 else x)
                     (map (\<lambda>x. if x = PInf \<or> x = NInf then NaN else x) T),
             g_m = m,
             g_\<mu> = fst (compute_mean_std e (map (\<lambda>x. if x = PInf \<or> x = NInf then NaN else x) T) m),
             g_\<sigma> = snd (compute_mean_std e (map (\<lambda>x. if x = PInf \<or> x = NInf then NaN else x) T) m),
             g_excl_zone = excl_zone_of m,
             g_orders = permutation_orders e (range_py (excl_zone_of m + 1) (int (length T) - m + 2)),
             g_n_threads = NUMBA_NUM_THREADS e,
             g_percentage = max (min percentage 1) 0,
             g_generator_rounds = \<lceil>1 / max (min percentage 1) 0\<rceil>,
             g_round = 0, g_start = 0, g_out = length h\<rparr>)
          \<and> 0 \<le> l
          \<and> (out = out0 \<or> (\<exists>P I js. efold (merge_step P I) (range_py 0 js) out0 = Inr out))"
    using assms unfolding scrimp_start_def Let_def out0_def l_def
    by (auto simp add: ebind_Inr_iff split: if_splits)
  then obtain out where hg: "hg = (h @ [out],
            \<lparr>g_T = map (\<lambda>x. if x = NaN then Flt 0 else x)
                     (map (\<lambda>x. if x = PInf \<or> x = NInf then NaN else x) T),
             g_m = m,
             g_\<mu> = fst (compute_mean_std e (map (\<lambda>x. if x = PInf \<or> x = NInf then NaN else x) T) m),
             g_\<sigma> = snd (compute_mean_std e (map (\<lambda>x. if x = PInf \<or> x = NInf then NaN else x) T) m),
             g_excl_zone = excl_zone_of m,
             g_orders = permutation_orders e (range_py (excl_zone_of m + 1) (int (length T) - m + 2)),
             g_n_threads = NUMBA_NUM_THREADS e,
             g_percentage = max (min percentage 1) 0,
             g_generator_rounds = \<lceil>1 / max (min percentage 1) 0\<rceil>,
             g_round = 0, g_start = 0, g_out = length h\<rparr>)"
    and l0: "0 \<le> l"
    and o: "out = out0 \<or> (\<exists>P I js. efold (merge_step P I) (range_py 0 js) out0 = Inr out)"
    by blast
  have "length out = length out0"
  proof (cases "out = out0")
    case True
    then show ?thesis by simp
  next
    case False
    then obtain P I js where m: "efold (merge_step P I) (range_py 0 js) out0 = Inr out"
      using o by blast
    have "\<forall>j \<in> set (range_py 0 js). 0 \<le> j" by simp
    from merge_loop_result[OF m this] show ?thesis by simp
  qed
  then have "int (length out) = l" using l0 by (simp add: out0_def)
  then show ?thesis using hg unfolding l_def by blast
qed

lemma excl_zone_of_nonneg: "1 \<le> m \<Longrightarrow> 0 \<le> excl_zone_of m"
  unfolding excl_zone_of_def by (simp add: ceiling_le_iff le_ceiling_iff)

lemma scrimp_start_gen_ok:
  assumes st: "scrimp_start e h T m percentage do_prescrimp s = Inr hg" and c: "call_ok e T m"
  shows "gen_ok e hg"
proof -
  define T' where "T' = map (\<lambda>x. if x = PInf \<or> x = NInf then NaN else x) T"
  define l where "l = int (length T) - m + 1"
  define ks where "ks = range_py (excl_zone_of m + 1) (int (length T) - m + 2)"
  have m1: "1 \<le> m" and ez: "excl_zone_of m < l"
    and lm: "int (length (fst (compute_mean_std e T' m))) = l"
    and ls: "int (length (snd (compute_mean_std e T' m))) = l"
    and perm: "set (permutation_orders e ks) = set ks"
    and N: "1 \<le> NUMBA_NUM_THREADS e"
    using c unfolding call_ok_def Let_def T'_def l_def ks_def by simp_all
  have ez0: "0 \<le> excl_zone_of m" using excl_zone_of_nonneg[OF m1] .
  obtain out where hg: "hg = (h @ [out],
            \<lparr>g_T = map (\<lambda>x. if x = NaN then Flt 0 else x) T',
             g_m = m,
             g_\<mu> = fst (compute_mean_std e T' m),
             g_\<sigma> = snd (compute_mean_std e T' m),
             g_excl_zone = excl_zone_of m,
             g_orders = permutation_orders e ks,
             g_n_threads = NUMBA_NUM_THREADS e,
             g_percentage = max (min percentage 1) 0,
             g_generator_rounds = \<lceil>1 / max (min percentage 1) 0\<rceil>,
             g_round = 0, g_start = 0, g_out = length h\<rparr>)"
    and lo: "int (length out) = l"
    using scrimp_start_Inr[OF st] unfolding T'_def ks_def l_def by blast
  have kne: "set ks \<noteq> {}" unfolding ks_def using ez l_def by simp
  then have one: "permutation_orders e ks \<noteq> []" using perm by auto
  have each: "excl_zone_of m + 1 \<le> permutation_orders e ks ! nat j
              \<and> permutation_orders e ks ! nat j \<le> int (length T) - m + 1"
    if j: "0 \<le> j" "j < int (length (permutation_orders e ks))" for j
  proof -
    have "permutation_orders e ks ! nat j \<in> set (permutation_orders e ks)" using j by simp
    then have "permutation_orders e ks ! nat j \<in> set ks" using perm by simp
    then show ?thesis unfolding ks_def by simp
  qed
  have w: "walk_ok (map (\<lambda>x. if x = NaN then Flt 0 else x) T') m (fst (compute_mean_std e T' m))
             (snd (compute_mean_std e T' m)) (excl_zone_of m) (permutation_orders e ks)
             (range_py 0 (int (length (permutation_orders e ks))))"
    unfolding walk_ok_def using m1 ez ez0 lm ls each
    by (simp add: T'_def l_def list_all_iff)
  show ?thesis
    unfolding gen_ok_def hg prod.case using lo one w N
    by (simp add: T'_def l_def)
qed





section \<open>C9: the yielded items are one array\<close>



section \<open>Self-match exclusion without PreSCRIMP\<close>

text \<open>
  The diagonal walker tests the exclusion zone before each write, the reduction and the
  merge only copy indices, and \<open>out\<close> starts with \<open>-1\<close> everywhere: when PreSCRIMP is
  not asked for and the collaborators behave, every snapshot that \<open>scrimp\<close> yields
  satisfies the self-match exclusion.
\<close>

lemma self_match_excluded_iff:
  "self_match_excluded excl_zone I = (\<forall>i < length I. I ! i = - 1 \<or> excl_zone < \<bar>I ! i - int i\<bar>)"
  unfolding self_match_excluded_def by (simp add: list_all_length)

lemma upd_excluded:
  assumes "0 \<le> fst c" "excl_zone < \<bar>snd (snd c) - fst c\<bar>" "self_match_excluded excl_zone (snd PI)"
  shows "self_match_excluded excl_zone (snd (upd c PI))"
proof -
  obtain a d b where c: "c = (a, d, b)" by (cases c) auto
  show ?thesis
  proof (cases "fl_less d (fst PI ! nat a)")
    case False
    then show ?thesis using assms(3) by (simp add: upd_def c)
  next
    case True
    then have u: "snd (upd c PI) = (snd PI)[nat a := b]" by (simp add: upd_def c)
    show ?thesis unfolding u self_match_excluded_iff
    proof (intro allI impI)
      fix i assume i: "i < length ((snd PI)[nat a := b])"
      show "(snd PI)[nat a := b] ! i = - 1 \<or> excl_zone < \<bar>(snd PI)[nat a := b] ! i - int i\<bar>"
      proof (cases "i = nat a")
        case True
        then have "int i = a" using assms(1) c by simp
        then show ?thesis using assms(2) c i True by simp
      next
        case False
        then show ?thesis using assms(3) i by (simp add: self_match_excluded_iff)
      qed
    qed
  qed
qed

lemma fold_upd_excluded:
  assumes "\<forall>c \<in> set cs. 0 \<le> fst c \<and> excl_zone < \<bar>snd (snd c) - fst c\<bar>"
    "self_match_excluded excl_zone (snd PI)"
  shows "self_match_excluded excl_zone (snd (fold upd cs PI))"
  using assms
proof (induction cs arbitrary: PI)
  case Nil
  then show ?case by simp
next
  case (Cons c cs)
  have "self_match_excluded excl_zone (snd (upd c PI))"
    using Cons.prems by (intro upd_excluded) simp_all
  then show ?case using Cons.IH[of "upd c PI"] Cons.prems(1) by simp
qed

lemma init_rows_excluded: "self_match_excluded excl_zone (snd (init_rows l))"
  by (simp add: self_match_excluded_iff init_rows_def)

lemma walk_excluded:
  assumes "walk_ok T m \<mu> \<sigma> excl_zone orders js"
  shows "self_match_excluded excl_zone
           (snd (fold upd (walk_cands e T m \<mu> \<sigma> excl_zone orders js) (init_rows l)))"
proof (rule fold_upd_excluded)
  show "\<forall>c \<in> set (walk_cands e T m \<mu> \<sigma> excl_zone orders js).
          0 \<le> fst c \<and> excl_zone < \<bar>snd (snd c) - fst c\<bar>"
    using walk_cands_bounds[OF assms] by blast
  show "self_match_excluded excl_zone (snd (init_rows l))" by (rule init_rows_excluded)
qed

lemma merge_step_rows:
  assumes "merge_step P I i out = Inr out'" "0 \<le> i"
  shows "length out' = length out
         \<and> (\<forall>j < length out. out' ! j = out ! j \<or> (j < length I \<and> snd (out' ! j) = I ! j))"
proof (cases "i < int (length out)")
  case False
  then have "merge_step P I i out = Inl IndexError"
    unfolding merge_step_def using assms(2) by (simp add: py_get_nonneg)
  then show ?thesis using assms(1) by simp
next
  case il: True
  have g1: "py_get out i = Inr (out ! nat i)" using il assms(2) by (simp add: py_get_nonneg)
  show ?thesis
  proof (cases "py_get P i")
    case (Inl err)
    then show ?thesis using assms(1) unfolding merge_step_def g1 by simp
  next
    case (Inr p)
    show ?thesis
    proof (cases "fl_greater (fst (out ! nat i)) p")
      case False
      then have "out' = out" using assms(1) unfolding merge_step_def g1 Inr by simp
      then show ?thesis by simp
    next
      case gr: True
      show ?thesis
      proof (cases "i < int (length I)")
        case False
        then have "py_get I i = Inl IndexError" using assms(2) by (simp add: py_get_nonneg)
        then show ?thesis using assms(1) gr unfolding merge_step_def g1 Inr by simp
      next
        case iI: True
        then have idx: "py_get I i = Inr (I ! nat i)" using assms(2) by (simp add: py_get_nonneg)
        have "out' = out[nat i := (p, I ! nat i)]"
          using assms(1,2) gr il unfolding merge_step_def g1 Inr idx
          by (simp add: py_set_nonneg)
        then show ?thesis using il iI assms(2)
          by (auto simp add: nth_list_update)
      qed
    qed
  qed
qed

lemma merge_loop_rows:
  assumes "efold (merge_step P I) js out = Inr out'" "\<forall>j \<in> set js. 0 \<le> j"
  shows "length out' = length out
         \<and> (\<forall>j < length out. out' ! j = out ! j \<or> (j < length I \<and> snd (out' ! j) = I ! j))"
  using assms
proof (induction js arbitrary: out)
  case Nil
  then show ?case by simp
next
  case (Cons i js)
  obtain out1 where s: "merge_step P I i out = Inr out1"
      and r: "efold (merge_step P I) js out1 = Inr out'"
    using Cons.prems(1) by (auto simp: ebind_def split: sum.splits)
  have i0: "0 \<le> i" using Cons.prems(2) by simp
  note a = merge_step_rows[OF s i0]
  have b: "length out' = length out1
         \<and> (\<forall>j < length out1. out' ! j = out1 ! j \<or> (j < length I \<and> snd (out' ! j) = I ! j))"
    using Cons.IH[OF r] Cons.prems(2) by simp
  show ?case
  proof (intro conjI allI impI)
    show "length out' = length out" using a b by simp
  next
    fix j assume j: "j < length out"
    then have j1: "j < length out1" using a by simp
    have "out1 ! j = out ! j \<or> (j < length I \<and> snd (out1 ! j) = I ! j)" using a j by blast
    moreover have "out' ! j = out1 ! j \<or> (j < length I \<and> snd (out' ! j) = I ! j)" using b j1 by blast
    ultimately show "out' ! j = out ! j \<or> (j < length I \<and> snd (out' ! j) = I ! j)" by auto
  qed
qed

lemma merge_loop_excluded:
  assumes "efold (merge_step P I) js out = Inr out'" "\<forall>j \<in> set js. 0 \<le> j"
    and "self_match_excluded excl_zone I" "self_match_excluded excl_zone (map snd out)"
  shows "self_match_excluded excl_zone (map snd out')"
proof -
  note r = merge_loop_rows[OF assms(1,2)]
  show ?thesis unfolding self_match_excluded_iff
  proof (intro allI impI)
    fix j assume "j < length (map snd out')"
    then have j: "j < length out" "j < length out'" using r by simp_all
    have "out' ! j = out ! j \<or> (j < length I \<and> snd (out' ! j) = I ! j)" using r j by blast
    then show "map snd out' ! j = - 1 \<or> excl_zone < \<bar>map snd out' ! j - int j\<bar>"
      using assms(3,4) j by (auto simp: self_match_excluded_iff)
  qed
qed

lemma scrimp_next_excluded:
  assumes ok: "gen_ok e (h, g)"
    and x: "self_match_excluded (g_excl_zone g) (map snd (h ! g_out g))"
    and n: "scrimp_next e (h, g) = Inr (Some a, h', g')"
  shows "gen_ok e (h', g') \<and> a = g_out g' \<and> g_excl_zone g' = g_excl_zone g
         \<and> self_match_excluded (g_excl_zone g') (map snd (h' ! g_out g'))"
proof -
  have lt: "g_round g < g_generator_rounds g"
    using n by (rule scrimp_next_Some)
  have o: "g_out g < length h"
    and w: "walk_ok (g_T g) (g_m g) (g_\<mu> g) (g_\<sigma> g) (g_excl_zone g) (g_orders g)
              (range_py 0 (int (length (g_orders g))))"
    and st: "0 \<le> g_start g"
    using ok unfolding gen_ok_def by simp_all
  define l where "l = int (length (g_T g)) - g_m g + 1"
  obtain stop out' where ss: "g_start g \<le> stop" "stop \<le> int (length (g_orders g))"
    and m: "efold (merge_step
                   (map fl_sqrt (fst (fold upd (walk_cands e (g_T g) (g_m g) (g_\<mu> g) (g_\<sigma> g)
                      (g_excl_zone g) (g_orders g) (range_py (g_start g) stop)) (init_rows l))))
                   (snd (fold upd (walk_cands e (g_T g) (g_m g) (g_\<mu> g) (g_\<sigma> g)
                      (g_excl_zone g) (g_orders g) (range_py (g_start g) stop)) (init_rows l))))
               (range_py 0 (int (length (h ! g_out g)))) (h ! g_out g) = Inr out'"
    and nx: "scrimp_next e (h, g) =
               Inr (Some (g_out g), h[g_out g := out'],
                    g\<lparr>g_start := stop, g_round := g_round g + 1\<rparr>)"
    and ok': "gen_ok e (h[g_out g := out'], g\<lparr>g_start := stop, g_round := g_round g + 1\<rparr>)"
    using scrimp_next_explicit[OF ok lt] unfolding l_def by blast
  have eq: "a = g_out g" "h' = h[g_out g := out']"
    "g' = g\<lparr>g_start := stop, g_round := g_round g + 1\<rparr>"
    using n nx by auto
  have w': "walk_ok (g_T g) (g_m g) (g_\<mu> g) (g_\<sigma> g) (g_excl_zone g) (g_orders g)
              (range_py (g_start g) stop)"
    using walk_ok_sub[OF w st ss(2)] .
  have "\<forall>j \<in> set (range_py 0 (int (length (h ! g_out g)))). 0 \<le> j" by simp
  from merge_loop_excluded[OF m this walk_excluded[OF w'] x]
  have "self_match_excluded (g_excl_zone g) (map snd out')" .
  then show ?thesis using ok' o unfolding eq by simp
qed

lemma scrimp_items_excluded:
  assumes "gen_ok e hg"
    and "self_match_excluded (g_excl_zone (snd hg)) (map snd (fst hg ! g_out (snd hg)))"
    and "item \<in> set (scrimp_items e k hg)"
  shows "self_match_excluded (g_excl_zone (snd hg)) (map snd (snd item ! fst item))"
  using assms
proof (induction k arbitrary: hg)
  case 0
  then show ?case by simp
next
  case (Suc k)
  obtain h g where hg: "hg = (h, g)" by (cases hg) auto
  show ?case
  proof (cases "\<exists>a h' g'. scrimp_next e (h, g) = Inr (Some a, h', g')")
    case False
    then have "scrimp_items e (Suc k) hg = []"
      unfolding hg by (auto split: sum.splits option.splits prod.splits)
    then show ?thesis using Suc.prems(3) by simp
  next
    case True
    then obtain a h' g' where n: "scrimp_next e (h, g) = Inr (Some a, h', g')" by blast
    have ok1: "gen_ok e (h, g)" using Suc.prems(1) hg by simp
    have x1: "self_match_excluded (g_excl_zone g) (map snd (h ! g_out g))"
      using Suc.prems(2) hg by simp
    note f = scrimp_next_excluded[OF ok1 x1 n]
    have items: "scrimp_items e (Suc k) hg = (a, h') # scrimp_items e k (h', g')"
      using n unfolding hg by simp
    show ?thesis
    proof (cases "item = (a, h')")
      case True
      then show ?thesis using f hg by auto
    next
      case False
      then have "item \<in> set (scrimp_items e k (h', g'))"
        using Suc.prems(3) unfolding items by simp
      from Suc.IH[OF _ _ this] f show ?thesis using hg by auto
    qed
  qed
qed

lemma scrimp_start_plain:
  assumes "scrimp_start e h T m percentage False s = Inr hg"
  shows "fst hg ! g_out (snd hg) = replicate (nat (int (length T) - m + 1)) (PInf, - 1)
         \<and> g_excl_zone (snd hg) = excl_zone_of m"
  using assms unfolding scrimp_start_def Let_def
  by (auto simp add: ebind_Inr_iff split: if_splits)

lemma walker_snapshots_excluded:
  assumes "call_ok e T m" "snap \<in> set (scrimp_snapshots e k T m percentage False s)"
  shows "self_match_excluded (excl_zone_of m) (map snd snap)"
proof (cases "scrimp_start e [] T m percentage False s")
  case (Inl err)
  then show ?thesis using assms(2) by (simp add: scrimp_snapshots_def)
next
  case (Inr hg)
  note p = scrimp_start_plain[OF Inr]
  have ok: "gen_ok e hg" using scrimp_start_gen_ok[OF Inr assms(1)] .
  have x: "self_match_excluded (g_excl_zone (snd hg)) (map snd (fst hg ! g_out (snd hg)))"
    using p by (simp add: self_match_excluded_iff)
  obtain item where item: "item \<in> set (scrimp_items e k hg)" "snap = snd item ! fst item"
    using assms(2) Inr by (auto simp: scrimp_snapshots_def)
  from scrimp_items_excluded[OF ok x item(1)] show ?thesis using item(2) p by simp
qed

end
